theory Spec2Isabelle
  imports Main
begin

section \<open>The AFF4 image stream of \<^verbatim>\<open>pyaff4/aff4_image.py\<close>\<close>

text \<open>
  The module is Python 2: a \<^verbatim>\<open>str\<close> is a byte string, modelled as \<^typ>\<open>string\<close>
  (a list of 8-bit characters), and \<^verbatim>\<open>/\<close> on integers is floor division.
  Every exception the module can raise is a value of \<open>error\<close>; a method that mutates
  \<^verbatim>\<open>self\<close> takes the object and returns the updated one (\<open>Inr\<close>), or the exception
  together with the object as the exception leaves it (\<open>Inl\<close>): the assignments made
  before the raising line stay. The read path assigns nothing and returns the exception
  alone.
\<close>

type_synonym bytes = string

datatype error =
    StorageResolution  \<comment> \<open>\<^verbatim>\<open>IOError("Unable to find storage for urn ...")\<close>\<close>
  | IndexEmpty         \<comment> \<open>\<^verbatim>\<open>IOError("Index empty in ...")\<close>\<close>
  | IndexTooShort      \<comment> \<open>\<^verbatim>\<open>IOError("Bevy index too short in ...")\<close>\<close>
  | OpenFailed         \<comment> \<open>\<^verbatim>\<open>AFF4FactoryOpen\<close> of a segment the volume does not hold\<close>
  | StructError        \<comment> \<open>\<^verbatim>\<open>struct.error\<close> of \<^verbatim>\<open>pack\<close> and \<^verbatim>\<open>unpack\<close>\<close>
  | CodecError         \<comment> \<open>\<^verbatim>\<open>zlib.error\<close> or the snappy equivalent\<close>
  | ZeroDivisionError
  | IndexError         \<comment> \<open>tuple index out of range\<close>
  | UnboundLocalError  \<comment> \<open>\<^verbatim>\<open>compressed_chunk\<close> never assigned\<close>
  | TypeError          \<comment> \<open>\<^verbatim>\<open>result += None\<close>\<close>

text \<open>
  The compression tag is a string compared against three constants of the lexicon module;
  a tag that is none of them falls through both \<^verbatim>\<open>if\<close> chains.
\<close>

datatype codec_tag = ZLIB | SNAPPY | STORED | UNSUPPORTED

text \<open>
  The two compression libraries are parameters of the model: \<^verbatim>\<open>compress\<close> is total on
  byte strings, \<^verbatim>\<open>decompress\<close> raises on malformed input (\<open>None\<close>).
\<close>

record codecs =
  zlib_compress :: "bytes \<Rightarrow> bytes"
  zlib_decompress :: "bytes \<Rightarrow> bytes option"
  snappy_compress :: "bytes \<Rightarrow> bytes"
  snappy_decompress :: "bytes \<Rightarrow> bytes option"

subsection \<open>The collaborators: resolver, volume, member streams\<close>

text \<open>
  Modelled from the spec: the resolver (\<^verbatim>\<open>self.resolver\<close>, module \<^verbatim>\<open>data_store\<close>) is a
  property store keyed by stream identity, with \<^verbatim>\<open>Get\<close> returning the value or absent
  and \<^verbatim>\<open>Set\<close> storing it. Only the properties of the one stream are kept: its type,
  the volume it is stored in, and the four stream properties.
\<close>

record resolver =
  r_type :: "string option"
  r_stored :: "string option"
  r_chunk_size :: "nat option"
  r_chunks_per_segment :: "nat option"
  r_stream_size :: "nat option"
  r_compression :: "codec_tag option"

text \<open>
  Modelled from the spec: the volume stores named segments. For stream identity \<open>S\<close>
  and bevy ordinal \<open>n\<close> the data segment is \<^verbatim>\<open>S/%08d\<close> and its index segment is
  that name followed by \<^verbatim>\<open>/index\<close>; the names of one stream are therefore in
  bijection with \<open>segname\<close>. \<^verbatim>\<open>CreateMember\<close> followed by \<^verbatim>\<open>Write\<close> binds the name to
  the bytes written; opening a name the volume does not hold fails.
\<close>

datatype segname = DataSeg nat | IndexSeg nat

type_synonym volume = "segname \<rightharpoonup> bytes"

text \<open>
  Modelled from the spec: an opened member is a positioned stream (the base class
  \<^verbatim>\<open>aff4.AFF4Stream\<close>, which this module does not define). The specification names
  its operations (open, seek, tell, size, read) and says that reads never extend past
  the recorded size; the usual contract of a positioned stream is taken for the rest.
  It is opened at position 0; \<^verbatim>\<open>Seek(o, 0)\<close> sets the position, \<^verbatim>\<open>Tell\<close> returns it,
  \<^verbatim>\<open>Size\<close> is the number of bytes held, and \<^verbatim>\<open>Read(n)\<close> returns the at most \<open>n\<close>
  bytes that follow the position (none for \<open>n \<le> 0\<close>) and advances the position past
  them.
\<close>

record member =
  content :: bytes
  pos :: nat

definition open_member :: "volume \<Rightarrow> segname \<Rightarrow> error + member" where
  "open_member vol name =
     (case vol name of None \<Rightarrow> Inl OpenFailed
      | Some b \<Rightarrow> Inr \<lparr>content = b, pos = 0\<rparr>)"

definition member_Size :: "member \<Rightarrow> nat" where
  "member_Size m = length (content m)"

definition member_Tell :: "member \<Rightarrow> nat" where
  "member_Tell m = pos m"

definition member_Seek :: "nat \<Rightarrow> member \<Rightarrow> member" where
  "member_Seek off m = m\<lparr>pos := off\<rparr>"

definition member_Read :: "int \<Rightarrow> member \<Rightarrow> bytes \<times> member" where
  "member_Read n m =
     (let d = take (nat n) (drop (pos m) (content m))
      in (d, m\<lparr>pos := pos m + length d\<rparr>))"

subsection \<open>The stream object\<close>

text \<open>
  The fields of \<^verbatim>\<open>AFF4Image\<close>. \<open>stream_size\<close> is the attribute \<^verbatim>\<open>size\<close> (renamed:
  \<open>size\<close> is a constant of HOL), \<open>readptr\<close> is the one cursor that \<^verbatim>\<open>Write\<close> advances
  and \<^verbatim>\<open>Read\<close> starts from, \<open>dirty\<close> is the flag behind \<^verbatim>\<open>MarkDirty\<close> and \<^verbatim>\<open>IsDirty\<close>.
  \<open>resolver\<close> and \<open>segments\<close> are the parts of the outside world the object reaches
  through \<^verbatim>\<open>self.resolver\<close>.
\<close>

record image =
  chunk_size :: nat
  chunks_per_segment :: nat
  stream_size :: nat
  compression :: codec_tag
  buffer :: bytes
  bevy :: bytes
  bevy_index :: bytes
  chunk_count_in_bevy :: nat
  bevy_number :: nat
  readptr :: nat
  dirty :: bool
  resolver :: resolver
  segments :: volume

text \<open>
  Modelled from the spec: the object-type tag \<^verbatim>\<open>lexicon.AFF4_IMAGE_TYPE\<close> that \<^verbatim>\<open>Flush\<close>
  records for the stream. Its value is a constant of the lexicon module and is never
  inspected here.
\<close>

definition AFF4_IMAGE_TYPE :: string where
  "AFF4_IMAGE_TYPE = ''image''"

text \<open>
  \<^verbatim>\<open>LoadFromURN\<close>, lines 43 to 65. The cursor and the dirty flag are attributes of the
  base class, which starts them at 0 and clean.
\<close>

definition LoadFromURN :: "resolver \<Rightarrow> volume \<Rightarrow> error + image" where
  "LoadFromURN r vol =
     (case r_stored r of
        None \<Rightarrow> Inl StorageResolution
      | Some volume_urn \<Rightarrow>
          Inr \<lparr>chunk_size = (case r_chunk_size r of None \<Rightarrow> 32 * 1024 | Some v \<Rightarrow> v),
               chunks_per_segment = (case r_chunks_per_segment r of None \<Rightarrow> 1024 | Some v \<Rightarrow> v),
               stream_size = (case r_stream_size r of None \<Rightarrow> 0 | Some v \<Rightarrow> v),
               compression = (case r_compression r of None \<Rightarrow> ZLIB | Some v \<Rightarrow> v),
               buffer = [], bevy = [], bevy_index = [],
               chunk_count_in_bevy = 0, bevy_number = 0,
               readptr = 0, dirty = False,
               resolver = r, segments = vol\<rparr>)"

text \<open>\<^verbatim>\<open>Seek(offset, 0)\<close> of the base class: Modelled from the spec: it sets the cursor.\<close>

definition Seek :: "nat \<Rightarrow> image \<Rightarrow> image" where
  "Seek off s = s\<lparr>readptr := off\<rparr>"

subsection \<open>The index encoding\<close>

text \<open>
  \<^verbatim>\<open>struct.pack("<I", n)\<close>: four bytes, least significant first; raises when \<open>n\<close> does not
  fit 32 bits.
\<close>

definition le32 :: "nat \<Rightarrow> bytes" where
  "le32 n = [char_of n, char_of (n div 2 ^ 8), char_of (n div 2 ^ 16), char_of (n div 2 ^ 24)]"

definition pack_I :: "nat \<Rightarrow> error + bytes" where
  "pack_I n = (if n < 2 ^ 32 then Inr (le32 n) else Inl StructError)"

fun unpack_words :: "bytes \<Rightarrow> nat list" where
  "unpack_words (a # b # c # d # rest) =
     (of_char a + 2 ^ 8 * of_char b + 2 ^ 16 * of_char c + 2 ^ 24 * of_char d) # unpack_words rest"
| "unpack_words _ = []"

text \<open>
  \<^verbatim>\<open>struct.unpack("<" + "I" * n, data)\<close>: raises unless \<open>data\<close> is exactly \<open>4 * n\<close> bytes.
\<close>

definition unpack_I :: "nat \<Rightarrow> bytes \<Rightarrow> error + nat list" where
  "unpack_I n data =
     (if length data = 4 * n then Inr (unpack_words data) else Inl StructError)"

subsection \<open>The write path\<close>

text \<open>
  The \<^verbatim>\<open>if\<close>/\<^verbatim>\<open>elif\<close> chain of \<^verbatim>\<open>FlushChunk\<close>, lines 84 to 89; \<open>None\<close> when no branch
  assigns \<^verbatim>\<open>compressed_chunk\<close>.
\<close>

definition compress_chunk :: "codecs \<Rightarrow> codec_tag \<Rightarrow> bytes \<Rightarrow> bytes option" where
  "compress_chunk cd tag chunk =
     (case tag of
        ZLIB \<Rightarrow> Some (zlib_compress cd chunk)
      | SNAPPY \<Rightarrow> Some (snappy_compress cd chunk)
      | STORED \<Rightarrow> Some chunk
      | UNSUPPORTED \<Rightarrow> None)"

text \<open>
  \<^verbatim>\<open>_FlushBevy\<close>, lines 98 to 124 (the leading underscore of a name is dropped
  throughout). The storage check comes first, the emptiness check second; the check
  raises before anything is assigned. Input and output failures of the volume itself
  (opening it, creating a member, writing to it, lines 110 to 115) belong to the
  collaborators and are not modelled: the volume of the model opens and stores.
\<close>

definition FlushBevy :: "image \<Rightarrow> error \<times> image + image" where
  "FlushBevy s =
     (case r_stored (resolver s) of
        None \<Rightarrow> Inl (StorageResolution, s)
      | Some volume_urn \<Rightarrow>
          if bevy s = [] then Inr s
          else Inr (s\<lparr>segments := (segments s)(IndexSeg (bevy_number s) \<mapsto> bevy_index s,
                                                DataSeg (bevy_number s) \<mapsto> bevy s),
                      chunk_count_in_bevy := 0,
                      bevy_number := bevy_number s + 1,
                      bevy := [],
                      bevy_index := []\<rparr>))"

text \<open>
  \<^verbatim>\<open>FlushChunk\<close>, lines 82 to 96. \<^verbatim>\<open>struct.pack\<close> raises on line 91 before the
  index is assigned. A tag that is none of the three raises on line 92, when line 91 has
  already appended the index entry and line 93 has not yet counted the chunk.
\<close>

definition FlushChunk :: "codecs \<Rightarrow> bytes \<Rightarrow> image \<Rightarrow> error \<times> image + image" where
  "FlushChunk cd chunk s =
     (let bevy_offset = length (bevy s);
          compressed_chunk = compress_chunk cd (compression s) chunk
      in case pack_I bevy_offset of
           Inl e \<Rightarrow> Inl (e, s)
         | Inr packed \<Rightarrow>
             (case compressed_chunk of
                None \<Rightarrow> Inl (UnboundLocalError, s\<lparr>bevy_index := bevy_index s @ packed\<rparr>)
              | Some cc \<Rightarrow>
                  (let s1 = s\<lparr>bevy_index := bevy_index s @ packed,
                              bevy := bevy s @ cc,
                              chunk_count_in_bevy := chunk_count_in_bevy s + 1\<rparr>
                   in if chunk_count_in_bevy s1 \<ge> chunks_per_segment s1
                      then FlushBevy s1 else Inr s1)))"

text \<open>
  The chunking loop of \<^verbatim>\<open>Write\<close>, lines 71 to 74. Nothing in the loop bounds the number
  of its iterations (with \<open>chunk_size = 0\<close> the buffer never shrinks), so not returning
  is the value \<open>None\<close>. An exception of \<^verbatim>\<open>FlushChunk\<close> leaves the loop with the buffer
  already cut.
\<close>

partial_function (option) Write_loop ::
  "codecs \<Rightarrow> image \<Rightarrow> (error \<times> image + image) option" where
  "Write_loop cd s =
     (if length (buffer s) > chunk_size s
      then (let chunk = take (chunk_size s) (buffer s);
                s1 = s\<lparr>buffer := drop (chunk_size s) (buffer s)\<rparr>
            in case FlushChunk cd chunk s1 of
                 Inl e \<Rightarrow> Some (Inl e)
               | Inr s2 \<Rightarrow> Write_loop cd s2)
      else Some (Inr s))"

declare Write_loop.simps [code]

text \<open>
  \<^verbatim>\<open>Write\<close>, lines 67 to 80; the result is the object and the returned count. An
  exception of the loop leaves the object dirty, with the data appended, and the cursor
  and the size not advanced.
\<close>

definition Write ::
  "codecs \<Rightarrow> bytes \<Rightarrow> image \<Rightarrow> (error \<times> image + image \<times> nat) option" where
  "Write cd data s =
     (case Write_loop cd (s\<lparr>dirty := True, buffer := buffer s @ data\<rparr>) of
        None \<Rightarrow> None
      | Some (Inl e) \<Rightarrow> Some (Inl e)
      | Some (Inr s1) \<Rightarrow>
          (let s2 = s1\<lparr>readptr := readptr s1 + length data\<rparr>;
               s3 = (if readptr s2 > stream_size s2
                     then s2\<lparr>stream_size := readptr s2\<rparr> else s2)
           in Some (Inr (s3, length data))))"

text \<open>
  The base class's \<^verbatim>\<open>Flush\<close>, reached through \<^verbatim>\<open>super\<close> on line 148. Modelled from the
  spec: the dirty flag is cleared after a flush has persisted the metadata.
\<close>

definition base_Flush :: "image \<Rightarrow> image" where
  "base_Flush s = s\<lparr>dirty := False\<rparr>"

text \<open>\<^verbatim>\<open>Flush\<close>, lines 126 to 148. \<^verbatim>\<open>self.buffer\<close> is passed on and is not assigned.\<close>

definition Flush :: "codecs \<Rightarrow> image \<Rightarrow> error \<times> image + image" where
  "Flush cd s =
     (if dirty s
      then (case FlushChunk cd (buffer s) s of
              Inl e \<Rightarrow> Inl e
            | Inr s1 \<Rightarrow>
                (case FlushBevy s1 of
                   Inl e \<Rightarrow> Inl e
                 | Inr s2 \<Rightarrow>
                     Inr (base_Flush
                       (s2\<lparr>resolver := (resolver s2)
                              \<lparr>r_type := Some AFF4_IMAGE_TYPE,
                               r_chunk_size := Some (chunk_size s2),
                               r_chunks_per_segment := Some (chunks_per_segment s2),
                               r_stream_size := Some (stream_size s2),
                               r_compression := Some (compression s2)\<rparr>\<rparr>))))
      else Inr (base_Flush s))"

subsection \<open>The read path\<close>

text \<open>
  The three \<^verbatim>\<open>if\<close> statements that end \<^verbatim>\<open>_ReadChunkFromBevy\<close>, lines 228 to 235:
  \<open>Inr None\<close> is the \<^verbatim>\<open>None\<close> the method returns when no tag matches.
\<close>

definition decompress_chunk :: "codecs \<Rightarrow> codec_tag \<Rightarrow> bytes \<Rightarrow> error + bytes option" where
  "decompress_chunk cd tag cbuffer =
     (case tag of
        ZLIB \<Rightarrow> (case zlib_decompress cd cbuffer of
                   None \<Rightarrow> Inl CodecError | Some d \<Rightarrow> Inr (Some d))
      | SNAPPY \<Rightarrow> (case snappy_decompress cd cbuffer of
                     None \<Rightarrow> Inl CodecError | Some d \<Rightarrow> Inr (Some d))
      | STORED \<Rightarrow> Inr (Some cbuffer)
      | UNSUPPORTED \<Rightarrow> Inr None)"

text \<open>
  \<^verbatim>\<open>_ReadChunkFromBevy\<close>, lines 208 to 235. The length of the last chunk is taken from
  the position the member stream has before the seek. The result carries the
  member stream as the read leaves it.
\<close>

definition ReadChunkFromBevy ::
  "codecs \<Rightarrow> image \<Rightarrow> nat \<Rightarrow> member \<Rightarrow> nat list \<Rightarrow> nat \<Rightarrow> error + (bytes option \<times> member)" where
  "ReadChunkFromBevy cd s chunk_id bevy_m bevy_index_array index_size =
     (if chunks_per_segment s = 0 then Inl ZeroDivisionError
      else
        let chunk_id_in_bevy = chunk_id mod chunks_per_segment s
        in if index_size = 0 then Inl IndexEmpty
           else if chunk_id_in_bevy \<ge> index_size then Inl IndexTooShort
           else
             (case (if chunk_id_in_bevy = index_size - 1
                    then Inr (int (member_Size bevy_m) - int (member_Tell bevy_m))
                    else if chunk_id_in_bevy + 1 < length bevy_index_array
                    then Inr (int (bevy_index_array ! (chunk_id_in_bevy + 1)) -
                              int (bevy_index_array ! chunk_id_in_bevy))
                    else Inl IndexError) of
                Inl e \<Rightarrow> Inl e
              | Inr compressed_chunk_size \<Rightarrow>
                  if chunk_id_in_bevy < length bevy_index_array
                  then (let m1 = member_Seek (bevy_index_array ! chunk_id_in_bevy) bevy_m;
                            (cbuffer, m2) = member_Read compressed_chunk_size m1
                        in case decompress_chunk cd (compression s) cbuffer of
                             Inl e \<Rightarrow> Inl e
                           | Inr d \<Rightarrow> Inr (d, m2))
                  else Inl IndexError))"

text \<open>
  The inner loop of \<^verbatim>\<open>_ReadPartial\<close>, lines 191 to 204, over one opened bevy. It
  returns the loop variables \<^verbatim>\<open>chunk_id\<close>, \<^verbatim>\<open>chunks_to_read\<close>, \<^verbatim>\<open>chunks_read\<close> and
  \<^verbatim>\<open>result\<close> as the \<^verbatim>\<open>break\<close> or the loop condition leaves them. The division on
  line 203 is reached only after \<^verbatim>\<open>_ReadChunkFromBevy\<close> has divided by the same number.
\<close>

function bevy_loop ::
  "codecs \<Rightarrow> image \<Rightarrow> nat \<Rightarrow> nat list \<Rightarrow> nat \<Rightarrow> member \<Rightarrow> nat \<Rightarrow> int \<Rightarrow> nat \<Rightarrow> bytes
   \<Rightarrow> error + (nat \<times> int \<times> nat \<times> bytes)" where
  "bevy_loop cd s bevy_id bevy_index_array index_size bevy_m chunk_id chunks_to_read chunks_read result =
     (if chunks_to_read > 0
      then (case ReadChunkFromBevy cd s chunk_id bevy_m bevy_index_array index_size of
              Inl e \<Rightarrow> Inl e
            | Inr (data, bevy_m') \<Rightarrow>
                (case data of
                   None \<Rightarrow> Inl TypeError
                 | Some d \<Rightarrow>
                     if bevy_id < (chunk_id + 1) div chunks_per_segment s
                     then Inr (chunk_id + 1, chunks_to_read - 1, chunks_read + 1, result @ d)
                     else bevy_loop cd s bevy_id bevy_index_array index_size bevy_m'
                            (chunk_id + 1) (chunks_to_read - 1) (chunks_read + 1) (result @ d)))
      else Inr (chunk_id, chunks_to_read, chunks_read, result))"
  by pat_completeness auto
termination
  by (relation "measure (\<lambda>(cd, s, bevy_id, arr, isz, m, cid, ctr, cr, res). nat ctr)") auto

lemma bevy_loop_decreases:
  "bevy_loop cd s bevy_id arr isz m cid ctr cr res = Inr (cid', ctr', cr', res')
   \<Longrightarrow> 0 < ctr \<Longrightarrow> ctr' < ctr"
proof (induction cd s bevy_id arr isz m cid ctr cr res rule: bevy_loop.induct)
  case (1 cd s bevy_id arr isz m cid ctr cr res)
  from "1.prems" obtain d m' where
    rd: "ReadChunkFromBevy cd s cid m arr isz = Inr (Some d, m')"
    by (subst (asm) bevy_loop.simps) (auto split: sum.splits option.splits)
  show ?case
  proof (cases "bevy_id < (cid + 1) div chunks_per_segment s")
    case True
    with "1.prems" rd show ?thesis
      by (subst (asm) bevy_loop.simps) simp
  next
    case False
    with "1.prems" rd have
      rec: "bevy_loop cd s bevy_id arr isz m' (cid + 1) (ctr - 1) (cr + 1) (res @ d)
            = Inr (cid', ctr', cr', res')"
      by (subst (asm) bevy_loop.simps) simp
    show ?thesis
    proof (cases "0 < ctr - 1")
      case True
      from "1.IH" [OF "1.prems"(2) rd refl refl False rec True] show ?thesis by simp
    next
      case False
      with rec have "ctr' = ctr - 1"
        by (subst (asm) bevy_loop.simps) simp
      with "1.prems"(2) show ?thesis by simp
    qed
  qed
qed

declare bevy_loop.simps [simp del]

text \<open>
  The outer loop of \<^verbatim>\<open>_ReadPartial\<close>, lines 178 to 204: it opens the index segment and
  the data segment of the bevy of \<^verbatim>\<open>chunk_id\<close> and runs the inner loop on them.
\<close>

function ReadPartial_loop ::
  "codecs \<Rightarrow> image \<Rightarrow> nat \<Rightarrow> int \<Rightarrow> nat \<Rightarrow> bytes \<Rightarrow> error + (nat \<times> bytes)" where
  "ReadPartial_loop cd s chunk_id chunks_to_read chunks_read result =
     (if chunks_to_read > 0
      then
        (if chunks_per_segment s = 0 then Inl ZeroDivisionError
         else
          let bevy_id = chunk_id div chunks_per_segment s
           in case open_member (segments s) (IndexSeg bevy_id) of
                Inl e \<Rightarrow> Inl e
              | Inr bevy_index_m \<Rightarrow>
                  (let index_size = member_Size bevy_index_m div 4;
                       bevy_index_data = fst (member_Read (int (member_Size bevy_index_m)) bevy_index_m)
                   in case unpack_I index_size bevy_index_data of
                        Inl e \<Rightarrow> Inl e
                      | Inr bevy_index_array \<Rightarrow>
                          (case open_member (segments s) (DataSeg bevy_id) of
                             Inl e \<Rightarrow> Inl e
                           | Inr bevy_m \<Rightarrow>
                               (case bevy_loop cd s bevy_id bevy_index_array index_size bevy_m
                                       chunk_id chunks_to_read chunks_read result of
                                  Inl e \<Rightarrow> Inl e
                                | Inr (chunk_id', chunks_to_read', chunks_read', result') \<Rightarrow>
                                    ReadPartial_loop cd s chunk_id' chunks_to_read'
                                      chunks_read' result'))))
      else Inr (chunks_read, result))"
  by pat_completeness auto
termination
  by (relation "measure (\<lambda>(cd, s, cid, ctr, cr, res). nat ctr)")
     (auto dest: bevy_loop_decreases)

declare ReadPartial_loop.simps [simp del]

text \<open>\<^verbatim>\<open>_ReadPartial\<close>, lines 174 to 206.\<close>

definition ReadPartial :: "codecs \<Rightarrow> image \<Rightarrow> nat \<Rightarrow> int \<Rightarrow> error + (nat \<times> bytes)" where
  "ReadPartial cd s chunk_id chunks_to_read = ReadPartial_loop cd s chunk_id chunks_to_read 0 []"

text \<open>
  The loop of \<^verbatim>\<open>Read\<close>, lines 159 to 165. \<^verbatim>\<open>chunk_id\<close> is not assigned in the loop.
\<close>

function Read_loop :: "codecs \<Rightarrow> image \<Rightarrow> nat \<Rightarrow> int \<Rightarrow> bytes \<Rightarrow> error + bytes" where
  "Read_loop cd s chunk_id chunks_to_read result =
     (if chunks_to_read > 0
      then (case ReadPartial cd s chunk_id chunks_to_read of
              Inl e \<Rightarrow> Inl e
            | Inr (chunks_read, data) \<Rightarrow>
                if chunks_read = 0 then Inr result
                else Read_loop cd s chunk_id (chunks_to_read - int chunks_read) (result @ data))
      else Inr result)"
  by pat_completeness auto
termination
  by (relation "measure (\<lambda>(cd, s, cid, ctr, res). nat ctr)") auto

declare Read_loop.simps [simp del]

text \<open>
  The slice \<^verbatim>\<open>result[:length]\<close>: a negative bound counts from the end of the string.
\<close>

definition slice_to :: "int \<Rightarrow> bytes \<Rightarrow> bytes" where
  "slice_to n xs = (if 0 \<le> n then take (nat n) xs else take (length xs - nat (- n)) xs)"

text \<open>
  \<^verbatim>\<open>Read\<close>, lines 150 to 172. The cursor is not moved, so the object is unchanged and
  only the bytes are returned. Both divisions are floor divisions, as \<open>div\<close> on
  \<^typ>\<open>int\<close> is.
\<close>

definition Read :: "codecs \<Rightarrow> int \<Rightarrow> image \<Rightarrow> error + bytes" where
  "Read cd length0 s =
     (let length1 = min length0 (int (stream_size s) - int (readptr s))
      in if chunk_size s = 0 then Inl ZeroDivisionError
         else
           (let initial_chunk_offset = readptr s mod chunk_size s;
                chunks_to_read = length1 div int (chunk_size s) + 1;
                chunk_id = readptr s div chunk_size s
            in case Read_loop cd s chunk_id chunks_to_read [] of
                 Inl e \<Rightarrow> Inl e
               | Inr result \<Rightarrow>
                   (let result1 = (if initial_chunk_offset \<noteq> 0
                                   then drop initial_chunk_offset result else result)
                    in Inr (slice_to length1 result1))))"

section \<open>Notions the properties are stated with\<close>

text \<open>
  Consecutive calls of \<^verbatim>\<open>FlushChunk\<close>, one per chunk of a list, as the loop of
  \<^verbatim>\<open>Write\<close> and then \<^verbatim>\<open>Flush\<close> issue them; the first exception ends the sequence.
\<close>

fun FlushChunks :: "codecs \<Rightarrow> bytes list \<Rightarrow> image \<Rightarrow> error \<times> image + image" where
  "FlushChunks cd [] s = Inr s"
| "FlushChunks cd (c # cs) s =
     (case FlushChunk cd c s of Inl e \<Rightarrow> Inl e | Inr s' \<Rightarrow> FlushChunks cd cs s')"

text \<open>
  The start offsets of consecutive compressed chunks laid end to end from offset
  \<open>off\<close>.
\<close>

fun chunk_offsets :: "nat \<Rightarrow> bytes list \<Rightarrow> nat list" where
  "chunk_offsets off [] = []"
| "chunk_offsets off (c # cs) = off # chunk_offsets (off + length c) cs"

text \<open>
  The byte range of a chunk in the data segment of its bevy, in the words of the
  specification: the chunk at position \<open>k\<close> of the index starts at its index entry; the
  last entry's chunk extends to the end of the data segment, any earlier chunk to the
  next index entry.
\<close>

definition spec_chunk_length :: "nat list \<Rightarrow> nat \<Rightarrow> nat \<Rightarrow> nat" where
  "spec_chunk_length idx data_size k =
     (if k = length idx - 1 then data_size - idx ! k else idx ! (k + 1) - idx ! k)"

definition spec_chunk_bytes :: "nat list \<Rightarrow> bytes \<Rightarrow> nat \<Rightarrow> bytes" where
  "spec_chunk_bytes idx blob k =
     take (spec_chunk_length idx (length blob) k) (drop (idx ! k) blob)"


text \<open>
  The object as a method of the write path leaves it, whether it returned or raised.
\<close>

fun state_of :: "error \<times> image + image \<Rightarrow> image" where
  "state_of (Inl (e, s)) = s"
| "state_of (Inr s) = s"

text \<open>
  The states of a stream object between operations: what \<^verbatim>\<open>LoadFromURN\<close> makes, and
  what any method makes of such a state, whether it returns or raises.
\<close>

inductive reachable :: "codecs \<Rightarrow> image \<Rightarrow> bool" for cd :: codecs where
  after_LoadFromURN: "LoadFromURN r vol = Inr s \<Longrightarrow> reachable cd s"
| after_Write: "reachable cd s \<Longrightarrow> Write cd data s = Some (Inr (s', n)) \<Longrightarrow> reachable cd s'"
| after_Flush: "reachable cd s \<Longrightarrow> Flush cd s = Inr s' \<Longrightarrow> reachable cd s'"
| after_Seek: "reachable cd s \<Longrightarrow> reachable cd (Seek off s)"
| after_FlushChunk: "reachable cd s \<Longrightarrow> FlushChunk cd chunk s = Inr s' \<Longrightarrow> reachable cd s'"
| after_FlushBevy: "reachable cd s \<Longrightarrow> FlushBevy s = Inr s' \<Longrightarrow> reachable cd s'"
| raised_Write: "reachable cd s \<Longrightarrow> Write cd data s = Some (Inl (e, s')) \<Longrightarrow> reachable cd s'"
| raised_Flush: "reachable cd s \<Longrightarrow> Flush cd s = Inl (e, s') \<Longrightarrow> reachable cd s'"
| raised_FlushChunk: "reachable cd s \<Longrightarrow> FlushChunk cd chunk s = Inl (e, s') \<Longrightarrow> reachable cd s'"
| raised_FlushBevy: "reachable cd s \<Longrightarrow> FlushBevy s = Inl (e, s') \<Longrightarrow> reachable cd s'"

section \<open>Example streams\<close>

text \<open>
  A stand-in for the two compression libraries in examples whose stream is \<open>STORED\<close>,
  where neither library is called.
\<close>

definition null_codecs :: codecs where
  "null_codecs = \<lparr>zlib_compress = (\<lambda>b. b), zlib_decompress = Some,
                   snappy_compress = (\<lambda>b. b), snappy_decompress = Some\<rparr>"

text \<open>
  The properties of a new stream stored in a volume, with \<open>chunk_size = 4\<close>,
  \<open>chunks_per_segment = 2\<close> and no compression, and the object \<^verbatim>\<open>LoadFromURN\<close>
  makes of them on an empty volume.
\<close>

definition example_resolver :: resolver where
  "example_resolver =
     \<lparr>r_type = Some AFF4_IMAGE_TYPE, r_stored = Some ''volume'', r_chunk_size = Some 4,
      r_chunks_per_segment = Some 2, r_stream_size = None, r_compression = Some STORED\<rparr>"

definition example_fresh :: image where
  "example_fresh =
     \<lparr>chunk_size = 4, chunks_per_segment = 2, stream_size = 0, compression = STORED,
      buffer = [], bevy = [], bevy_index = [], chunk_count_in_bevy = 0, bevy_number = 0,
      readptr = 0, dirty = False, resolver = example_resolver, segments = Map.empty\<rparr>"

text \<open>The stream after \<^verbatim>\<open>Write("ABCDEFGHIJ")\<close>, and after the \<^verbatim>\<open>Flush\<close> that follows.\<close>

definition example_written :: image where
  "example_written =
     \<lparr>chunk_size = 4, chunks_per_segment = 2, stream_size = 10, compression = STORED,
      buffer = ''IJ'', bevy = [], bevy_index = [], chunk_count_in_bevy = 0, bevy_number = 1,
      readptr = 10, dirty = True, resolver = example_resolver,
      segments = [IndexSeg 0 \<mapsto> le32 0 @ le32 4, DataSeg 0 \<mapsto> ''ABCDEFGH'']\<rparr>"

definition example_flushed :: image where
  "example_flushed =
     \<lparr>chunk_size = 4, chunks_per_segment = 2, stream_size = 10, compression = STORED,
      buffer = ''IJ'', bevy = [], bevy_index = [], chunk_count_in_bevy = 0, bevy_number = 2,
      readptr = 10, dirty = False,
      resolver = example_resolver\<lparr>r_stream_size := Some 10\<rparr>,
      segments = [IndexSeg 0 \<mapsto> le32 0 @ le32 4, DataSeg 0 \<mapsto> ''ABCDEFGH'',
                  IndexSeg 1 \<mapsto> le32 0, DataSeg 1 \<mapsto> ''IJ'']\<rparr>"

text \<open>The stream after \<^verbatim>\<open>Write("ABCD")\<close>, and after the \<^verbatim>\<open>Flush\<close> that follows.\<close>

definition abcd_written :: image where
  "abcd_written =
     \<lparr>chunk_size = 4, chunks_per_segment = 2, stream_size = 4, compression = STORED,
      buffer = ''ABCD'', bevy = [], bevy_index = [], chunk_count_in_bevy = 0, bevy_number = 0,
      readptr = 4, dirty = True, resolver = example_resolver, segments = Map.empty\<rparr>"

definition abcd_flushed :: image where
  "abcd_flushed =
     \<lparr>chunk_size = 4, chunks_per_segment = 2, stream_size = 4, compression = STORED,
      buffer = ''ABCD'', bevy = [], bevy_index = [], chunk_count_in_bevy = 0, bevy_number = 1,
      readptr = 4, dirty = False,
      resolver = example_resolver\<lparr>r_stream_size := Some 4\<rparr>,
      segments = [IndexSeg 0 \<mapsto> le32 0, DataSeg 0 \<mapsto> ''ABCD'']\<rparr>"


text \<open>
  The new stream after \<^verbatim>\<open>FlushChunk("ABCD")\<close> and \<^verbatim>\<open>FlushChunk("EFGH")\<close>: the second
  call fills the bevy and persists it.
\<close>

definition example_two_chunks :: image where
  "example_two_chunks =
     example_fresh\<lparr>segments := [IndexSeg 0 \<mapsto> le32 0 @ le32 4, DataSeg 0 \<mapsto> ''ABCDEFGH''],
                   bevy_number := 1\<rparr>"

text \<open>
  A stream whose recorded compression tag is none of the three, as \<^verbatim>\<open>LoadFromURN\<close> makes
  it; after \<^verbatim>\<open>Write("AB")\<close>; and as the \<^verbatim>\<open>Flush\<close> that follows leaves it when line 92
  raises.
\<close>

definition unsupported_resolver :: resolver where
  "unsupported_resolver = example_resolver\<lparr>r_compression := Some UNSUPPORTED\<rparr>"

definition unsupported_fresh :: image where
  "unsupported_fresh =
     example_fresh\<lparr>compression := UNSUPPORTED, resolver := unsupported_resolver\<rparr>"

definition unsupported_written :: image where
  "unsupported_written =
     unsupported_fresh\<lparr>buffer := ''AB'', dirty := True, readptr := 2, stream_size := 2\<rparr>"

definition unsupported_raised :: image where
  "unsupported_raised = unsupported_written\<lparr>bevy_index := le32 0\<rparr>"

section \<open>Properties\<close>

subsection \<open>The index encoding round trip\<close>

lemma length_le32: "length (le32 n) = 4"
  by (simp add: le32_def)

lemma le32_digits:
  fixes n :: nat
  assumes "n < 2 ^ 32"
  shows "n mod 256 + 256 * (n div 256 mod 256) + 65536 * (n div 65536 mod 256)
        + 16777216 * (n div 16777216 mod 256) = n"
proof -
  define q1 where "q1 = n div 256"
  define q2 where "q2 = q1 div 256"
  define q3 where "q3 = q2 div 256"
  have e2: "n div 65536 = q2"
    unfolding q2_def q1_def by (simp add: div_mult2_eq)
  have e3: "n div 16777216 = q3"
    unfolding q3_def q2_def q1_def by (simp add: div_mult2_eq)
  have "q3 < 256"
    using assms unfolding e3 [symmetric] by (simp add: less_mult_imp_div_less)
  have a1: "n = n mod 256 + 256 * q1" unfolding q1_def by simp
  have a2: "q1 = q1 mod 256 + 256 * q2" unfolding q2_def by simp
  have a3: "q2 = q2 mod 256 + 256 * q3" unfolding q3_def by simp
  have a4: "q3 mod 256 = q3" using \<open>q3 < 256\<close> by simp
  have "n mod 256 + 256 * (q1 mod 256) + 65536 * (q2 mod 256) + 16777216 * q3 = n"
    using a1 a2 a3 by linarith
  then show ?thesis
    unfolding e2 e3 a4 q1_def [symmetric] .
qed

lemma word_of_le32:
  assumes "n < 2 ^ 32"
  shows "unpack_words (le32 n @ rest) = n # unpack_words rest"
proof -
  have "unpack_words (le32 n @ rest) =
          (n mod 256 + 256 * (n div 256 mod 256) + 65536 * (n div 65536 mod 256)
           + 16777216 * (n div 16777216 mod 256)) # unpack_words rest"
    by (simp add: le32_def)
  then show ?thesis
    unfolding le32_digits [OF assms] .
qed

lemma word_of_le32_only:
  "n < 2 ^ 32 \<Longrightarrow> unpack_words (le32 n) = [n]"
  using word_of_le32 [of n "[]"] by simp

subsection \<open>One iteration of each loop\<close>

lemma Write_loop_more:
  "chunk_size s < length (buffer s) \<Longrightarrow>
   Write_loop cd s =
     (case FlushChunk cd (take (chunk_size s) (buffer s))
             (s\<lparr>buffer := drop (chunk_size s) (buffer s)\<rparr>) of
        Inl e \<Rightarrow> Some (Inl e)
      | Inr s2 \<Rightarrow> Write_loop cd s2)"
  by (subst Write_loop.simps) (simp add: Let_def)

lemma Write_loop_done:
  "\<not> chunk_size s < length (buffer s) \<Longrightarrow> Write_loop cd s = Some (Inr s)"
  by (subst Write_loop.simps) simp

lemma bevy_loop_more:
  "0 < ctr \<Longrightarrow>
   bevy_loop cd s bevy_id arr isz m cid ctr cr res =
     (case ReadChunkFromBevy cd s cid m arr isz of
        Inl e \<Rightarrow> Inl e
      | Inr (data, m') \<Rightarrow>
          (case data of
             None \<Rightarrow> Inl TypeError
           | Some d \<Rightarrow>
               if bevy_id < (cid + 1) div chunks_per_segment s
               then Inr (cid + 1, ctr - 1, cr + 1, res @ d)
               else bevy_loop cd s bevy_id arr isz m' (cid + 1) (ctr - 1) (cr + 1) (res @ d)))"
  by (subst bevy_loop.simps) simp

lemma bevy_loop_done:
  "\<not> 0 < ctr \<Longrightarrow> bevy_loop cd s bevy_id arr isz m cid ctr cr res = Inr (cid, ctr, cr, res)"
  by (subst bevy_loop.simps) simp

lemma ReadPartial_loop_done:
  "\<not> 0 < ctr \<Longrightarrow> ReadPartial_loop cd s cid ctr cr res = Inr (cr, res)"
  by (subst ReadPartial_loop.simps) simp

lemma ReadPartial_loop_more:
  "0 < ctr \<Longrightarrow> 0 < chunks_per_segment s \<Longrightarrow>
   segments s (IndexSeg (cid div chunks_per_segment s)) = Some ib \<Longrightarrow>
   segments s (DataSeg (cid div chunks_per_segment s)) = Some db \<Longrightarrow>
   length ib = 4 * n \<Longrightarrow>
   ReadPartial_loop cd s cid ctr cr res =
     (case bevy_loop cd s (cid div chunks_per_segment s) (unpack_words ib) n
             \<lparr>content = db, pos = 0\<rparr> cid ctr cr res of
        Inl e \<Rightarrow> Inl e
      | Inr (cid', ctr', cr', res') \<Rightarrow> ReadPartial_loop cd s cid' ctr' cr' res')"
  by (subst ReadPartial_loop.simps)
     (simp add: open_member_def member_Size_def member_Read_def unpack_I_def Let_def)

lemma ReadPartial_loop_eval:
  "0 < ctr \<Longrightarrow> 0 < chunks_per_segment s \<Longrightarrow>
   segments s (IndexSeg (cid div chunks_per_segment s)) \<noteq> None \<Longrightarrow>
   segments s (DataSeg (cid div chunks_per_segment s)) \<noteq> None \<Longrightarrow>
   length (the (segments s (IndexSeg (cid div chunks_per_segment s)))) mod 4 = 0 \<Longrightarrow>
   ReadPartial_loop cd s cid ctr cr res =
     (case bevy_loop cd s (cid div chunks_per_segment s)
             (unpack_words (the (segments s (IndexSeg (cid div chunks_per_segment s)))))
             (length (the (segments s (IndexSeg (cid div chunks_per_segment s)))) div 4)
             \<lparr>content = the (segments s (DataSeg (cid div chunks_per_segment s))), pos = 0\<rparr>
             cid ctr cr res of
        Inl e \<Rightarrow> Inl e
      | Inr (cid', ctr', cr', res') \<Rightarrow> ReadPartial_loop cd s cid' ctr' cr' res')"
  by (rule ReadPartial_loop_more) auto

lemma Read_loop_done:
  "\<not> 0 < ctr \<Longrightarrow> Read_loop cd s cid ctr res = Inr res"
  by (subst Read_loop.simps) simp

lemma Read_loop_more:
  "0 < ctr \<Longrightarrow>
   Read_loop cd s cid ctr res =
     (case ReadPartial cd s cid ctr of
        Inl e \<Rightarrow> Inl e
      | Inr (chunks_read, data) \<Rightarrow>
          if chunks_read = 0 then Inr res
          else Read_loop cd s cid (ctr - int chunks_read) (res @ data))"
  by (subst Read_loop.simps) simp

subsection \<open>Evaluation of the examples\<close>

lemmas write_eval =
  numeral_2_eq_2 [symmetric] Let_def pack_I_def FlushChunk_def FlushBevy_def compress_chunk_def
  length_le32 Write_loop_more Write_loop_done Write_def Flush_def base_Flush_def

lemmas read_eval =
  Read_def ReadPartial_def Read_loop_more Read_loop_done ReadPartial_loop_done
  ReadPartial_loop_eval bevy_loop_more bevy_loop_done ReadChunkFromBevy_def
  decompress_chunk_def member_Seek_def member_Read_def member_Size_def member_Tell_def
  slice_to_def word_of_le32 word_of_le32_only length_le32 Let_def Seek_def

lemma example_load: "LoadFromURN example_resolver Map.empty = Inr example_fresh"
  by (simp add: LoadFromURN_def example_resolver_def example_fresh_def)

lemma example_write:
  "Write cd ''ABCDEFGHIJ'' example_fresh = Some (Inr (example_written, 10))"
  by (simp add: example_fresh_def example_resolver_def example_written_def write_eval)

lemma example_flush: "Flush cd example_written = Inr example_flushed"
  by (simp add: example_flushed_def example_resolver_def example_written_def write_eval)

lemma abcd_write: "Write cd ''ABCD'' example_fresh = Some (Inr (abcd_written, 4))"
  by (simp add: example_fresh_def example_resolver_def abcd_written_def write_eval)

lemma abcd_flush: "Flush cd abcd_written = Inr abcd_flushed"
  by (simp add: abcd_flushed_def example_resolver_def abcd_written_def write_eval)

subsection \<open>What the write path leaves alone, and that it returns\<close>

lemma FlushBevy_frame:
  assumes "FlushBevy s = Inr s'"
  shows "chunk_size s' = chunk_size s" "chunks_per_segment s' = chunks_per_segment s"
    "buffer s' = buffer s" "readptr s' = readptr s" "stream_size s' = stream_size s"
    "compression s' = compression s" "dirty s' = dirty s" "resolver s' = resolver s"
  using assms by (auto simp: FlushBevy_def split: option.splits if_splits)

lemma FlushChunk_frame:
  assumes "FlushChunk cd chunk s = Inr s'"
  shows "chunk_size s' = chunk_size s" "chunks_per_segment s' = chunks_per_segment s"
    "buffer s' = buffer s" "readptr s' = readptr s" "stream_size s' = stream_size s"
    "compression s' = compression s" "dirty s' = dirty s" "resolver s' = resolver s"
  using assms
  by (auto simp: FlushChunk_def Let_def split: sum.splits option.splits if_splits
           dest: FlushBevy_frame)

lemma Write_loop_returns:
  "0 < chunk_size s \<Longrightarrow>
   \<exists>r. Write_loop cd s = Some r \<and>
       (\<forall>s'. r = Inr s' \<longrightarrow> length (buffer s') \<le> chunk_size s' \<and> chunk_size s' = chunk_size s)"
proof (induction "length (buffer s)" arbitrary: s rule: less_induct)
  case less
  show ?case
  proof (cases "chunk_size s < length (buffer s)")
    case False
    then have "Write_loop cd s = Some (Inr s)" by (rule Write_loop_done)
    with False show ?thesis by simp
  next
    case True
    let ?s1 = "s\<lparr>buffer := drop (chunk_size s) (buffer s)\<rparr>"
    note step = Write_loop_more [OF True, of cd]
    show ?thesis
    proof (cases "FlushChunk cd (take (chunk_size s) (buffer s)) ?s1")
      case (Inl e)
      then have "Write_loop cd s = Some (Inl e)" unfolding step by simp
      then show ?thesis by simp
    next
      case (Inr s2)
      then have eq: "Write_loop cd s = Write_loop cd s2" unfolding step by simp
      from FlushChunk_frame(1,3) [OF Inr]
      have c: "chunk_size s2 = chunk_size s" and b: "buffer s2 = drop (chunk_size s) (buffer s)"
        by simp_all
      from b True less.prems have lt: "length (buffer s2) < length (buffer s)" by simp
      from less.prems c have pos: "0 < chunk_size s2" by simp
      from less.hyps [OF lt pos] c show ?thesis unfolding eq by simp
    qed
  qed
qed

subsection \<open>Errors of the codecs\<close>

lemma decompress_chunk_not_index_error:
  "decompress_chunk cd tag b \<noteq> Inl IndexEmpty" "decompress_chunk cd tag b \<noteq> Inl IndexTooShort"
  by (auto simp: decompress_chunk_def split: codec_tag.splits option.splits)

subsection \<open>What a flush does\<close>




subsection \<open>The bevy index\<close>

lemma length_index_bytes: "length (concat (map le32 offs)) = 4 * length offs"
  by (induction offs) (simp_all add: length_le32)

lemma unpack_words_index:
  "\<forall>x\<in>set offs. x < 2 ^ 32 \<Longrightarrow> unpack_words (concat (map le32 offs)) = offs"
  by (induction offs) (simp_all add: word_of_le32)

lemma unpack_I_index:
  "\<forall>x\<in>set offs. x < 2 ^ 32 \<Longrightarrow> unpack_I (length offs) (concat (map le32 offs)) = Inr offs"
  by (simp add: unpack_I_def length_index_bytes unpack_words_index)

lemma length_chunk_offsets: "length (chunk_offsets off ccs) = length ccs"
  by (induction ccs arbitrary: off) simp_all

lemma chunk_offsets_ge: "x \<in> set (chunk_offsets off ccs) \<Longrightarrow> off \<le> x"
  by (induction ccs arbitrary: off) fastforce+

lemma sorted_chunk_offsets: "sorted (chunk_offsets off ccs)"
  by (induction ccs arbitrary: off) (auto dest: chunk_offsets_ge)

lemma chunk_offsets_first: "ccs \<noteq> [] \<Longrightarrow> chunk_offsets off ccs ! 0 = off"
  by (cases ccs) simp_all

lemma chunk_offsets_snoc:
  "chunk_offsets off (ccs @ [c]) = chunk_offsets off ccs @ [off + length (concat ccs)]"
  by (induction ccs arbitrary: off) (simp_all add: add.assoc)

lemma FlushChunks_snoc:
  "FlushChunks cd (cs @ [c]) s =
     (case FlushChunks cd cs s of Inl e \<Rightarrow> Inl e | Inr s' \<Rightarrow> FlushChunk cd c s')"
  by (induction cs arbitrary: s) (simp_all split: sum.splits)


lemma FlushBevy_outcome:
  "compression (state_of (FlushBevy s)) = compression s"
  "length (bevy_index s) = 4 * chunk_count_in_bevy s \<Longrightarrow>
   length (bevy_index (state_of (FlushBevy s))) = 4 * chunk_count_in_bevy (state_of (FlushBevy s))"
  by (simp_all add: FlushBevy_def split: option.splits)

lemma compress_chunk_supported:
  "tag \<noteq> UNSUPPORTED \<Longrightarrow> \<exists>cc. compress_chunk cd tag c = Some cc"
  by (cases tag) (simp_all add: compress_chunk_def)

lemma FlushChunk_outcome:
  "compression (state_of (FlushChunk cd c s)) = compression s"
  "compression s \<noteq> UNSUPPORTED \<Longrightarrow>
   length (bevy_index s) = 4 * chunk_count_in_bevy s \<Longrightarrow>
   length (bevy_index (state_of (FlushChunk cd c s)))
     = 4 * chunk_count_in_bevy (state_of (FlushChunk cd c s))"
proof -
  show "compression (state_of (FlushChunk cd c s)) = compression s"
  proof (cases "length (bevy s) < 2 ^ 32")
    case False
    then show ?thesis by (simp add: FlushChunk_def pack_I_def Let_def)
  next
    case True
    show ?thesis
    proof (cases "compress_chunk cd (compression s) c")
      case None
      with True show ?thesis by (simp add: FlushChunk_def pack_I_def Let_def)
    next
      case (Some cc)
      with True show ?thesis
        by (simp add: FlushChunk_def pack_I_def Let_def FlushBevy_outcome(1))
    qed
  qed
next
  assume sup: "compression s \<noteq> UNSUPPORTED"
    and inv: "length (bevy_index s) = 4 * chunk_count_in_bevy s"
  show "length (bevy_index (state_of (FlushChunk cd c s)))
     = 4 * chunk_count_in_bevy (state_of (FlushChunk cd c s))"
  proof (cases "length (bevy s) < 2 ^ 32")
    case False
    with inv show ?thesis by (simp add: FlushChunk_def pack_I_def Let_def)
  next
    case True
    from compress_chunk_supported [OF sup] obtain cc where
      cc: "compress_chunk cd (compression s) c = Some cc" by blast
    let ?s1 = "s\<lparr>bevy_index := bevy_index s @ le32 (length (bevy s)),
                   bevy := bevy s @ cc,
                   chunk_count_in_bevy := chunk_count_in_bevy s + 1\<rparr>"
    from inv have i1: "length (bevy_index ?s1) = 4 * chunk_count_in_bevy ?s1"
      by (simp add: length_le32)
    have e: "FlushChunk cd c s =
               (if chunks_per_segment s \<le> chunk_count_in_bevy s + 1
                then FlushBevy ?s1 else Inr ?s1)"
      using True cc by (simp add: FlushChunk_def pack_I_def Let_def)
    show ?thesis
    proof (cases "chunks_per_segment s \<le> chunk_count_in_bevy s + 1")
      case True
      with e have "FlushChunk cd c s = FlushBevy ?s1" by simp
      with FlushBevy_outcome(2) [OF i1] show ?thesis by simp
    next
      case False
      with e have "FlushChunk cd c s = Inr ?s1" by simp
      with i1 show ?thesis by simp
    qed
  qed
qed


lemma Write_loop_outcome:
  assumes l: "Write_loop cd s = Some r"
  shows "compression (state_of r) = compression s \<and>
         (compression s \<noteq> UNSUPPORTED \<longrightarrow>
          length (bevy_index s) = 4 * chunk_count_in_bevy s \<longrightarrow>
          length (bevy_index (state_of r)) = 4 * chunk_count_in_bevy (state_of r))"
proof (rule Write_loop.raw_induct [OF _ l])
  fix loop :: "codecs \<Rightarrow> image \<Rightarrow> (error \<times> image + image) option" and cd s r
  assume IH: "\<And>cd s r. loop cd s = Some r \<Longrightarrow>
                compression (state_of r) = compression s \<and>
                (compression s \<noteq> UNSUPPORTED \<longrightarrow>
                 length (bevy_index s) = 4 * chunk_count_in_bevy s \<longrightarrow>
                 length (bevy_index (state_of r)) = 4 * chunk_count_in_bevy (state_of r))"
    and body: "(if chunk_size s < length (buffer s)
                then let chunk = take (chunk_size s) (buffer s);
                         s1 = s\<lparr>buffer := drop (chunk_size s) (buffer s)\<rparr>
                     in case FlushChunk cd chunk s1 of
                          Inl e \<Rightarrow> Some (Inl e)
                        | Inr s2 \<Rightarrow> loop cd s2
                else Some (Inr s)) = Some r"
  show "compression (state_of r) = compression s \<and>
         (compression s \<noteq> UNSUPPORTED \<longrightarrow>
          length (bevy_index s) = 4 * chunk_count_in_bevy s \<longrightarrow>
          length (bevy_index (state_of r)) = 4 * chunk_count_in_bevy (state_of r))"
  proof (cases "chunk_size s < length (buffer s)")
    case False
    with body show ?thesis by auto
  next
    case True
    let ?s1 = "s\<lparr>buffer := drop (chunk_size s) (buffer s)\<rparr>"
    let ?f = "FlushChunk cd (take (chunk_size s) (buffer s)) ?s1"
    have c1: "compression (state_of ?f) = compression s"
      using FlushChunk_outcome(1) [of cd "take (chunk_size s) (buffer s)" ?s1] by simp
    have i1: "length (bevy_index (state_of ?f)) = 4 * chunk_count_in_bevy (state_of ?f)"
      if "compression s \<noteq> UNSUPPORTED" "length (bevy_index s) = 4 * chunk_count_in_bevy s"
      using FlushChunk_outcome(2) [of ?s1 cd "take (chunk_size s) (buffer s)"] that by simp
    show ?thesis
    proof (cases ?f)
      case (Inl e)
      with True body have "r = ?f" by (simp add: Let_def)
      with c1 i1 show ?thesis by simp
    next
      case (Inr s2)
      with True body have l2: "loop cd s2 = Some r" by (simp add: Let_def)
      from Inr c1 have c2: "compression s2 = compression s" by simp
      from Inr i1 have i2: "length (bevy_index s2) = 4 * chunk_count_in_bevy s2"
        if "compression s \<noteq> UNSUPPORTED" "length (bevy_index s) = 4 * chunk_count_in_bevy s"
        using that by simp
      from IH [OF l2] c2 i2 show ?thesis by simp
    qed
  qed
qed

lemma Write_outcome:
  assumes "Write cd data s = Some r"
  shows "(\<forall>e s'. r = Inl (e, s') \<longrightarrow>
            compression s' = compression s \<and>
            (compression s \<noteq> UNSUPPORTED \<longrightarrow>
             length (bevy_index s) = 4 * chunk_count_in_bevy s \<longrightarrow>
             length (bevy_index s') = 4 * chunk_count_in_bevy s'))
         \<and> (\<forall>s' n. r = Inr (s', n) \<longrightarrow>
            compression s' = compression s \<and>
            (compression s \<noteq> UNSUPPORTED \<longrightarrow>
             length (bevy_index s) = 4 * chunk_count_in_bevy s \<longrightarrow>
             length (bevy_index s') = 4 * chunk_count_in_bevy s'))"
proof -
  let ?s0 = "s\<lparr>dirty := True, buffer := buffer s @ data\<rparr>"
  from assms obtain r0 where l: "Write_loop cd ?s0 = Some r0"
    by (cases "Write_loop cd ?s0") (simp_all add: Write_def)
  note o = Write_loop_outcome [OF l]
  show ?thesis
  proof (cases r0)
    case (Inl x)
    with assms l have "r = Inl x" by (simp add: Write_def)
    with o Inl show ?thesis by (cases x) auto
  next
    case (Inr s1)
    with assms l obtain s3 where r: "r = Inr (s3, length data)"
      and f: "compression s3 = compression s1" "bevy_index s3 = bevy_index s1"
             "chunk_count_in_bevy s3 = chunk_count_in_bevy s1"
      by (auto simp: Write_def Let_def split: if_splits)
    with o Inr show ?thesis by simp
  qed
qed

lemma Flush_outcome:
  "compression (state_of (Flush cd s)) = compression s"
  "compression s \<noteq> UNSUPPORTED \<Longrightarrow>
   length (bevy_index s) = 4 * chunk_count_in_bevy s \<Longrightarrow>
   length (bevy_index (state_of (Flush cd s))) = 4 * chunk_count_in_bevy (state_of (Flush cd s))"
proof -
  let ?f = "FlushChunk cd (buffer s) s"
  have shape: "state_of (Flush cd s) =
      (if dirty s
       then (case ?f of
               Inl x \<Rightarrow> state_of ?f
             | Inr s1 \<Rightarrow>
                 (case FlushBevy s1 of
                    Inl y \<Rightarrow> state_of (FlushBevy s1)
                  | Inr s2 \<Rightarrow>
                      base_Flush (s2\<lparr>resolver := (resolver s2)
                              \<lparr>r_type := Some AFF4_IMAGE_TYPE,
                               r_chunk_size := Some (chunk_size s2),
                               r_chunks_per_segment := Some (chunks_per_segment s2),
                               r_stream_size := Some (stream_size s2),
                               r_compression := Some (compression s2)\<rparr>\<rparr>)))
       else base_Flush s)"
    by (simp add: Flush_def split: sum.splits)
  show "compression (state_of (Flush cd s)) = compression s"
  proof (cases "dirty s")
    case False
    then show ?thesis by (simp add: shape base_Flush_def)
  next
    case True
    show ?thesis
    proof (cases ?f)
      case (Inl x)
      with True FlushChunk_outcome(1) [of cd "buffer s" s] show ?thesis
        by (simp add: shape)
    next
      case (Inr s1)
      with FlushChunk_outcome(1) [of cd "buffer s" s] have c1: "compression s1 = compression s"
        by simp
      show ?thesis
      proof (cases "FlushBevy s1")
        case (Inl y)
        with True Inr c1 FlushBevy_outcome(1) [of s1] show ?thesis
          by (simp add: shape)
      next
        case r2: (Inr s2)
        with FlushBevy_outcome(1) [of s1] c1 have "compression s2 = compression s" by simp
        with True Inr r2 show ?thesis by (simp add: shape base_Flush_def)
      qed
    qed
  qed
next
  assume sup: "compression s \<noteq> UNSUPPORTED"
    and inv: "length (bevy_index s) = 4 * chunk_count_in_bevy s"
  let ?f = "FlushChunk cd (buffer s) s"
  note i1 = FlushChunk_outcome(2) [OF sup inv, of cd "buffer s"]
  show "length (bevy_index (state_of (Flush cd s))) = 4 * chunk_count_in_bevy (state_of (Flush cd s))"
  proof (cases "dirty s")
    case False
    with inv show ?thesis by (simp add: Flush_def base_Flush_def)
  next
    case True
    show ?thesis
    proof (cases ?f)
      case (Inl x)
      with True i1 show ?thesis by (simp add: Flush_def)
    next
      case (Inr s1)
      with i1 have i: "length (bevy_index s1) = 4 * chunk_count_in_bevy s1" by simp
      note i2 = FlushBevy_outcome(2) [OF i]
      show ?thesis
      proof (cases "FlushBevy s1")
        case (Inl y)
        with True Inr i2 show ?thesis by (simp add: Flush_def)
      next
        case r2: (Inr s2)
        with True Inr i2 show ?thesis by (simp add: Flush_def base_Flush_def)
      qed
    qed
  qed
qed

lemma reachable_index_length:
  "reachable cd s \<Longrightarrow> compression s \<noteq> UNSUPPORTED \<Longrightarrow>
   length (bevy_index s) = 4 * chunk_count_in_bevy s"
proof (induction rule: reachable.induct)
  case (after_LoadFromURN r vol s)
  then show ?case by (auto simp: LoadFromURN_def split: option.splits)
next
  case (after_Write s data s' n)
  from Write_outcome [OF after_Write.hyps(2)] after_Write.IH after_Write.prems
  show ?case by simp
next
  case (after_Flush s s')
  from Flush_outcome [where cd = cd and s = s] after_Flush.hyps(2) after_Flush.IH after_Flush.prems
  show ?case by simp
next
  case (after_Seek s off)
  then show ?case by (simp add: Seek_def)
next
  case (after_FlushChunk s chunk s')
  from FlushChunk_outcome [where cd = cd and c = chunk and s = s] after_FlushChunk.hyps(2) after_FlushChunk.IH
    after_FlushChunk.prems
  show ?case by simp
next
  case (after_FlushBevy s s')
  from FlushBevy_outcome [where s = s] after_FlushBevy.hyps(2) after_FlushBevy.IH after_FlushBevy.prems
  show ?case by simp
next
  case (raised_Write s data e s')
  from Write_outcome [OF raised_Write.hyps(2)] raised_Write.IH raised_Write.prems
  show ?case by simp
next
  case (raised_Flush s e s')
  from Flush_outcome [where cd = cd and s = s] raised_Flush.hyps(2) raised_Flush.IH raised_Flush.prems
  show ?case by simp
next
  case (raised_FlushChunk s chunk e s')
  from FlushChunk_outcome [where cd = cd and c = chunk and s = s] raised_FlushChunk.hyps(2) raised_FlushChunk.IH
    raised_FlushChunk.prems
  show ?case by simp
next
  case (raised_FlushBevy s e s')
  from FlushBevy_outcome [where s = s] raised_FlushBevy.hyps(2) raised_FlushBevy.IH
    raised_FlushBevy.prems
  show ?case by simp
qed

lemma FlushChunk_no_rollover:
  assumes "chunk_count_in_bevy s + 1 < chunks_per_segment s"
    and "FlushChunk cd c s = Inr s'"
  shows "\<exists>cc. compress_chunk cd (compression s) c = Some cc
           \<and> length (bevy s) < 2 ^ 32
           \<and> s' = s\<lparr>bevy_index := bevy_index s @ le32 (length (bevy s)),
                      bevy := bevy s @ cc,
                      chunk_count_in_bevy := chunk_count_in_bevy s + 1\<rparr>"
  using assms
  by (auto simp: FlushChunk_def pack_I_def Let_def split: if_splits option.splits)

lemma FlushChunks_no_rollover:
  "chunk_count_in_bevy s + length cs < chunks_per_segment s \<Longrightarrow>
   FlushChunks cd cs s = Inr s' \<Longrightarrow>
   \<exists>ccs. map (compress_chunk cd (compression s)) cs = map Some ccs
     \<and> (\<forall>x\<in>set (chunk_offsets (length (bevy s)) ccs). x < 2 ^ 32)
     \<and> s' = s\<lparr>bevy_index := bevy_index s @ concat (map le32 (chunk_offsets (length (bevy s)) ccs)),
                bevy := bevy s @ concat ccs,
                chunk_count_in_bevy := chunk_count_in_bevy s + length ccs\<rparr>"
proof (induction cs arbitrary: s)
  case Nil
  then show ?case by simp
next
  case (Cons c cs)
  from Cons.prems(2) obtain s1 where
    f: "FlushChunk cd c s = Inr s1" and r: "FlushChunks cd cs s1 = Inr s'"
    by (auto split: sum.splits)
  from Cons.prems(1) have "chunk_count_in_bevy s + 1 < chunks_per_segment s" by simp
  from FlushChunk_no_rollover [OF this f] obtain cc where
    cc: "compress_chunk cd (compression s) c = Some cc" "length (bevy s) < 2 ^ 32"
    and s1: "s1 = s\<lparr>bevy_index := bevy_index s @ le32 (length (bevy s)),
                      bevy := bevy s @ cc,
                      chunk_count_in_bevy := chunk_count_in_bevy s + 1\<rparr>"
    by blast
  from Cons.prems(1) s1 have "chunk_count_in_bevy s1 + length cs < chunks_per_segment s1"
    by simp
  from Cons.IH [OF this r] obtain ccs where
    m: "map (compress_chunk cd (compression s1)) cs = map Some ccs"
    and b: "\<forall>x\<in>set (chunk_offsets (length (bevy s1)) ccs). x < 2 ^ 32"
    and e: "s' = s1\<lparr>bevy_index := bevy_index s1 @ concat (map le32 (chunk_offsets (length (bevy s1)) ccs)),
                bevy := bevy s1 @ concat ccs,
                chunk_count_in_bevy := chunk_count_in_bevy s1 + length ccs\<rparr>"
    by blast
  have "map (compress_chunk cd (compression s)) (c # cs) = map Some (cc # ccs)"
    using cc m s1 by simp
  moreover have "\<forall>x\<in>set (chunk_offsets (length (bevy s)) (cc # ccs)). x < 2 ^ 32"
    using cc b s1 by simp
  moreover have "s' = s\<lparr>bevy_index := bevy_index s @ concat (map le32 (chunk_offsets (length (bevy s)) (cc # ccs))),
                bevy := bevy s @ concat (cc # ccs),
                chunk_count_in_bevy := chunk_count_in_bevy s + length (cc # ccs)\<rparr>"
    unfolding e s1 by simp
  ultimately show ?case by blast
qed


lemma FlushChunk_steps:
  assumes "FlushChunk cd c s = Inr s'"
  obtains cc where "compress_chunk cd (compression s) c = Some cc" "length (bevy s) < 2 ^ 32"
    "chunks_per_segment s \<le> chunk_count_in_bevy s + 1 \<Longrightarrow>
       FlushBevy (s\<lparr>bevy_index := bevy_index s @ le32 (length (bevy s)),
                      bevy := bevy s @ cc,
                      chunk_count_in_bevy := chunk_count_in_bevy s + 1\<rparr>) = Inr s'"
    "chunk_count_in_bevy s + 1 < chunks_per_segment s \<Longrightarrow>
       s' = s\<lparr>bevy_index := bevy_index s @ le32 (length (bevy s)),
                bevy := bevy s @ cc,
                chunk_count_in_bevy := chunk_count_in_bevy s + 1\<rparr>"
proof -
  from assms have p: "length (bevy s) < 2 ^ 32"
    by (cases "length (bevy s) < 2 ^ 32") (simp_all add: FlushChunk_def pack_I_def Let_def)
  from assms p obtain cc where cc: "compress_chunk cd (compression s) c = Some cc"
    by (cases "compress_chunk cd (compression s) c")
       (simp_all add: FlushChunk_def pack_I_def Let_def)
  let ?s1 = "s\<lparr>bevy_index := bevy_index s @ le32 (length (bevy s)),
                 bevy := bevy s @ cc,
                 chunk_count_in_bevy := chunk_count_in_bevy s + 1\<rparr>"
  from assms p cc have r: "(if chunks_per_segment s \<le> chunk_count_in_bevy s + 1
                            then FlushBevy ?s1 else Inr ?s1) = Inr s'"
    by (auto simp: FlushChunk_def pack_I_def Let_def split: if_splits)
  have a: "chunks_per_segment s \<le> chunk_count_in_bevy s + 1 \<Longrightarrow> FlushBevy ?s1 = Inr s'"
    using r by simp
  have b: "chunk_count_in_bevy s + 1 < chunks_per_segment s \<Longrightarrow> s' = ?s1"
    using r by simp
  from that [OF cc p a b] show thesis .
qed

lemma FlushBevy_result:
  assumes "FlushBevy s = Inr s'"
  shows "bevy s = [] \<Longrightarrow> s' = s"
    and "bevy s \<noteq> [] \<Longrightarrow>
         s' = s\<lparr>segments := (segments s)(IndexSeg (bevy_number s) \<mapsto> bevy_index s,
                                           DataSeg (bevy_number s) \<mapsto> bevy s),
                 chunk_count_in_bevy := 0, bevy_number := bevy_number s + 1,
                 bevy := [], bevy_index := []\<rparr>"
proof -
  from assms obtain v where v: "r_stored (resolver s) = Some v"
    by (cases "r_stored (resolver s)") (simp_all add: FlushBevy_def)
  show "bevy s = [] \<Longrightarrow> s' = s"
    using assms v by (simp add: FlushBevy_def)
  show "bevy s \<noteq> [] \<Longrightarrow>
         s' = s\<lparr>segments := (segments s)(IndexSeg (bevy_number s) \<mapsto> bevy_index s,
                                           DataSeg (bevy_number s) \<mapsto> bevy s),
                 chunk_count_in_bevy := 0, bevy_number := bevy_number s + 1,
                 bevy := [], bevy_index := []\<rparr>"
    using assms v by (simp add: FlushBevy_def)
qed

lemma FlushChunk_last:
  assumes "FlushChunk cd c s = Inr s'"
  shows "\<exists>cc. compress_chunk cd (compression s) c = Some cc \<and> length (bevy s) < 2 ^ 32
           \<and> (if chunk_count_in_bevy s + 1 < chunks_per_segment s \<or> bevy s @ cc = []
                then bevy_index s' = bevy_index s @ le32 (length (bevy s))
                     \<and> chunk_count_in_bevy s' = chunk_count_in_bevy s + 1
                else segments s' (IndexSeg (bevy_number s))
                       = Some (bevy_index s @ le32 (length (bevy s)))
                     \<and> segments s' (DataSeg (bevy_number s)) = Some (bevy s @ cc))"
proof -
  from FlushChunk_steps [OF assms] obtain cc where
    cc: "compress_chunk cd (compression s) c = Some cc" "length (bevy s) < 2 ^ 32"
    and a: "chunks_per_segment s \<le> chunk_count_in_bevy s + 1 \<Longrightarrow>
       FlushBevy (s\<lparr>bevy_index := bevy_index s @ le32 (length (bevy s)),
                      bevy := bevy s @ cc,
                      chunk_count_in_bevy := chunk_count_in_bevy s + 1\<rparr>) = Inr s'"
    and b: "chunk_count_in_bevy s + 1 < chunks_per_segment s \<Longrightarrow>
       s' = s\<lparr>bevy_index := bevy_index s @ le32 (length (bevy s)),
                bevy := bevy s @ cc,
                chunk_count_in_bevy := chunk_count_in_bevy s + 1\<rparr>"
    by blast
  let ?s1 = "s\<lparr>bevy_index := bevy_index s @ le32 (length (bevy s)),
                 bevy := bevy s @ cc,
                 chunk_count_in_bevy := chunk_count_in_bevy s + 1\<rparr>"
  have "if chunk_count_in_bevy s + 1 < chunks_per_segment s \<or> bevy s @ cc = []
        then bevy_index s' = bevy_index s @ le32 (length (bevy s))
             \<and> chunk_count_in_bevy s' = chunk_count_in_bevy s + 1
        else segments s' (IndexSeg (bevy_number s))
               = Some (bevy_index s @ le32 (length (bevy s)))
             \<and> segments s' (DataSeg (bevy_number s)) = Some (bevy s @ cc)"
  proof (cases "chunk_count_in_bevy s + 1 < chunks_per_segment s")
    case True
    from b [OF True] True show ?thesis by simp
  next
    case False
    then have "FlushBevy ?s1 = Inr s'" using a by simp
    note r = FlushBevy_result [OF this]
    show ?thesis
    proof (cases "bevy s @ cc = []")
      case True
      then have "bevy ?s1 = []" by simp
      from r(1) [OF this] True show ?thesis by simp
    next
      case ne: False
      then have "bevy ?s1 \<noteq> []" by simp
      from r(2) [OF this] ne False show ?thesis by simp
    qed
  qed
  with cc show ?thesis by blast
qed

lemma bevy_index_after_chunks:
  assumes fresh: "bevy s = []" "bevy_index s = []" "chunk_count_in_bevy s = 0"
    and n: "1 \<le> length cs" "length cs \<le> chunks_per_segment s"
    and ok: "FlushChunks cd cs s = Inr s'"
  shows "\<exists>ccs offs ib.
           map (compress_chunk cd (compression s)) cs = map Some ccs
           \<and> offs = chunk_offsets 0 ccs \<and> ib = concat (map le32 offs)
           \<and> length ib = 4 * length cs \<and> unpack_I (length cs) ib = Inr offs
           \<and> length offs = length cs \<and> sorted offs \<and> offs ! 0 = 0
           \<and> (if length cs < chunks_per_segment s \<or> concat ccs = []
                then bevy_index s' = ib \<and> chunk_count_in_bevy s' = length cs
                else segments s' (IndexSeg (bevy_number s)) = Some ib
                     \<and> segments s' (DataSeg (bevy_number s)) = Some (concat ccs))"
proof -
  from n(1) obtain cs0 c where cs: "cs = cs0 @ [c]"
    by (cases cs rule: rev_cases) auto
  from ok obtain s1 where
    f0: "FlushChunks cd cs0 s = Inr s1" and f1: "FlushChunk cd c s1 = Inr s'"
    unfolding cs FlushChunks_snoc by (auto split: sum.splits)
  from n(2) fresh(3) have "chunk_count_in_bevy s + length cs0 < chunks_per_segment s"
    unfolding cs by simp
  from FlushChunks_no_rollover [OF this f0] fresh obtain ccs0 where
    m0: "map (compress_chunk cd (compression s)) cs0 = map Some ccs0"
    and b0: "\<forall>x\<in>set (chunk_offsets 0 ccs0). x < 2 ^ 32"
    and s1: "s1 = s\<lparr>bevy_index := concat (map le32 (chunk_offsets 0 ccs0)),
                      bevy := concat ccs0,
                      chunk_count_in_bevy := length ccs0\<rparr>"
    by auto
  from m0 have l0: "length ccs0 = length cs0"
    by (metis length_map)
  from FlushChunk_last [OF f1] obtain cc where
    cc: "compress_chunk cd (compression s1) c = Some cc" "length (bevy s1) < 2 ^ 32"
    and w: "if chunk_count_in_bevy s1 + 1 < chunks_per_segment s1 \<or> bevy s1 @ cc = []
            then bevy_index s' = bevy_index s1 @ le32 (length (bevy s1))
                 \<and> chunk_count_in_bevy s' = chunk_count_in_bevy s1 + 1
            else segments s' (IndexSeg (bevy_number s1))
                   = Some (bevy_index s1 @ le32 (length (bevy s1)))
                 \<and> segments s' (DataSeg (bevy_number s1)) = Some (bevy s1 @ cc)"
    by blast
  have v: "bevy_index s1 = concat (map le32 (chunk_offsets 0 ccs0))" "bevy s1 = concat ccs0"
    "chunk_count_in_bevy s1 = length cs0" "bevy_number s1 = bevy_number s"
    "chunks_per_segment s1 = chunks_per_segment s" "compression s1 = compression s"
    unfolding s1 by (simp_all add: l0)
  let ?ccs = "ccs0 @ [cc]"
  let ?offs = "chunk_offsets 0 ?ccs"
  let ?ib = "concat (map le32 ?offs)"
  have offs: "?offs = chunk_offsets 0 ccs0 @ [length (concat ccs0)]"
    by (simp add: chunk_offsets_snoc)
  have ib: "?ib = concat (map le32 (chunk_offsets 0 ccs0)) @ le32 (length (concat ccs0))"
    unfolding offs by simp
  have cat: "concat ?ccs = concat ccs0 @ cc" by simp
  have lcs: "length cs = length cs0 + 1" unfolding cs by simp
  have m: "map (compress_chunk cd (compression s)) cs = map Some ?ccs"
    using m0 cc(1) unfolding cs v by simp
  have len: "length ?offs = length cs"
    unfolding cs by (simp add: length_chunk_offsets l0)
  have bound: "\<forall>x\<in>set ?offs. x < 2 ^ 32"
    using b0 cc(2) unfolding offs v by simp
  from unpack_I_index [OF bound] len have dec: "unpack_I (length cs) ?ib = Inr ?offs"
    by simp
  have lib: "length ?ib = 4 * length cs"
    using len by (simp only: length_index_bytes)
  have first: "?offs ! 0 = 0"
    by (rule chunk_offsets_first) simp
  have loc: "if length cs < chunks_per_segment s \<or> concat ?ccs = []
             then bevy_index s' = ?ib \<and> chunk_count_in_bevy s' = length cs
             else segments s' (IndexSeg (bevy_number s)) = Some ?ib
                  \<and> segments s' (DataSeg (bevy_number s)) = Some (concat ?ccs)"
    using w unfolding v ib cat lcs .
  show ?thesis
    apply (rule exI [of _ ?ccs])
    apply (rule exI [of _ ?offs])
    apply (rule exI [of _ ?ib])
    apply (intro conjI refl m dec lib len first loc sorted_chunk_offsets)
    done
qed

lemma example_two_chunks_eval:
  "FlushChunks cd [''ABCD'', ''EFGH''] example_fresh = Inr example_two_chunks"
  by (simp add: example_fresh_def example_resolver_def example_two_chunks_def write_eval)

subsection \<open>Reading the chunks of one bevy\<close>

lemma length_unpack_words: "length (unpack_words xs) = length xs div 4"
  by (induction xs rule: unpack_words.induct) simp_all

lemma member_Read_to_end:
  assumes "p \<le> off"
  shows "member_Read (int (member_Size m) - int p) (member_Seek off m)
         = (drop off (content m), m\<lparr>pos := off + (length (content m) - off)\<rparr>)"
proof -
  have "length (content m) - off \<le> nat (int (length (content m)) - int p)"
    using assms by simp
  then show ?thesis
    by (simp add: member_Read_def member_Seek_def member_Size_def Let_def min_def)
qed

lemma member_Read_between:
  assumes "a \<le> b" "b \<le> length (content m)"
  shows "member_Read (int b - int a) (member_Seek a m)
         = (take (b - a) (drop a (content m)), m\<lparr>pos := a + (b - a)\<rparr>)"
proof -
  have "nat (int b - int a) = b - a" by simp
  moreover have "min (length (content m) - a) (b - a) = b - a"
    using assms by simp
  ultimately show ?thesis
    by (simp add: member_Read_def member_Seek_def Let_def)
qed

lemma ReadChunkFromBevy_slice:
  assumes cps: "0 < chunks_per_segment s"
    and k: "chunk_id mod chunks_per_segment s = k" "k < length arr"
    and wf: "sorted arr" "\<forall>x\<in>set arr. x \<le> length (content m)"
    and p: "pos m \<le> arr ! k"
  shows "ReadChunkFromBevy cd s chunk_id m arr (length arr) =
           (case decompress_chunk cd (compression s) (spec_chunk_bytes arr (content m) k) of
              Inl e \<Rightarrow> Inl e
            | Inr d \<Rightarrow>
                Inr (d, m\<lparr>pos := arr ! k + spec_chunk_length arr (length (content m)) k\<rparr>))"
proof -
  from k(2) have ne: "(length arr = 0) = False" "(length arr \<le> k) = False" by auto
  have c0: "(chunks_per_segment s = 0) = False" using cps by simp
  show ?thesis
  proof (cases "k = length arr - 1")
    case True
    have b: "spec_chunk_bytes arr (content m) k = drop (arr ! k) (content m)"
      using True by (simp add: spec_chunk_bytes_def spec_chunk_length_def)
    have l: "spec_chunk_length arr (length (content m)) k = length (content m) - arr ! k"
      using True by (simp add: spec_chunk_length_def)
    have r: "member_Read (int (member_Size m) - int (member_Tell m)) (member_Seek (arr ! k) m)
             = (drop (arr ! k) (content m), m\<lparr>pos := arr ! k + (length (content m) - arr ! k)\<rparr>)"
      unfolding member_Tell_def using p by (rule member_Read_to_end)
    have kt: "(k = length arr - 1) = True" "(k < length arr) = True"
      using True k(2) by simp_all
    show ?thesis
      unfolding ReadChunkFromBevy_def Let_def k(1) b l
      by (simp only: kt c0 ne if_True if_False r sum.case prod.case simp_thms)
  next
    case False
    with k(2) have k1: "k + 1 < length arr" by simp
    with wf have le1: "arr ! (k + 1) \<le> length (content m)" by simp
    from k1 wf(1) have mono: "arr ! k \<le> arr ! (k + 1)"
      by (simp add: sorted_iff_nth_mono)
    have b: "spec_chunk_bytes arr (content m) k
             = take (arr ! (k + 1) - arr ! k) (drop (arr ! k) (content m))"
      using False by (simp add: spec_chunk_bytes_def spec_chunk_length_def)
    have l: "spec_chunk_length arr (length (content m)) k = arr ! (k + 1) - arr ! k"
      using False by (simp add: spec_chunk_length_def)
    note r = member_Read_between [OF mono le1]
    have kt: "(k = length arr - 1) = False" "(k < length arr) = True"
      "(k + 1 < length arr) = True"
      using False k(2) k1 by simp_all
    show ?thesis
      unfolding ReadChunkFromBevy_def Let_def k(1) b l
      by (simp only: kt c0 ne if_True if_False r sum.case prod.case simp_thms)
  qed
qed


lemma next_chunk_same_bevy:
  fixes c :: nat
  assumes "cid mod c + 1 < c"
  shows "(cid + 1) div c = cid div c" "(cid + 1) mod c = cid mod c + 1"
  using assms by (simp_all add: div_Suc mod_Suc)

lemma next_chunk_next_bevy:
  fixes c :: nat
  assumes "cid mod c + 1 = c"
  shows "(cid + 1) div c = cid div c + 1"
  using assms by (simp add: div_Suc mod_Suc)

lemma bevy_loop_reads:
  assumes cps: "0 < chunks_per_segment s"
    and wf: "sorted arr" "\<forall>x\<in>set arr. x \<le> length blob"
  shows "content m = blob \<Longrightarrow> cid div chunks_per_segment s = b \<Longrightarrow>
         cid mod chunks_per_segment s + n \<le> length arr \<Longrightarrow>
         cid mod chunks_per_segment s + n \<le> chunks_per_segment s \<Longrightarrow>
         (0 < n \<Longrightarrow> pos m \<le> arr ! (cid mod chunks_per_segment s)) \<Longrightarrow>
         length ds = n \<Longrightarrow>
         (\<forall>i<n. decompress_chunk cd (compression s)
                  (spec_chunk_bytes arr blob (cid mod chunks_per_segment s + i))
                = Inr (Some (ds ! i))) \<Longrightarrow>
         bevy_loop cd s b arr (length arr) m cid (int n) cr res
           = Inr (cid + n, 0, cr + n, res @ concat ds)"
proof (induction n arbitrary: m cid cr res ds)
  case 0
  then show ?case by (simp add: bevy_loop_done)
next
  case (Suc n)
  let ?c = "chunks_per_segment s"
  let ?k = "cid mod ?c"
  from Suc.prems(6) obtain d ds' where ds: "ds = d # ds'" and lds: "length ds' = n"
    by (cases ds) auto
  from Suc.prems(3) have k: "?k < length arr" by simp
  from Suc.prems(7) have d0: "decompress_chunk cd (compression s) (spec_chunk_bytes arr blob ?k)
                               = Inr (Some d)"
    unfolding ds by (metis add.right_neutral nth_Cons_0 zero_less_Suc)
  from Suc.prems(5) have p: "pos m \<le> arr ! ?k" by simp
  let ?m' = "m\<lparr>pos := arr ! ?k + spec_chunk_length arr (length blob) ?k\<rparr>"
  from wf(2) Suc.prems(1) have wfm: "\<forall>x\<in>set arr. x \<le> length (content m)" by simp
  have rd: "ReadChunkFromBevy cd s cid m arr (length arr) = Inr (Some d, ?m')"
    using ReadChunkFromBevy_slice [OF cps refl k wf(1) wfm p, of cd] d0 Suc.prems(1)
    by simp
  have step: "bevy_loop cd s b arr (length arr) m cid (int (Suc n)) cr res =
               (if b < (cid + 1) div ?c
                then Inr (cid + 1, int (Suc n) - 1, cr + 1, res @ d)
                else bevy_loop cd s b arr (length arr) ?m' (cid + 1) (int (Suc n) - 1)
                       (cr + 1) (res @ d))"
    by (subst bevy_loop_more) (simp_all add: rd)
  show ?case
  proof (cases "?k + 1 = ?c")
    case True
    with Suc.prems(4) have n0: "n = 0" by simp
    with lds have "ds' = []" by simp
    moreover from next_chunk_next_bevy [OF True] Suc.prems(2)
    have "b < (cid + 1) div ?c" by simp
    ultimately show ?thesis
      unfolding step ds using n0 by simp
  next
    case False
    with Suc.prems(4) have lt: "?k + 1 < ?c" by simp
    note nx = next_chunk_same_bevy [OF lt]
    from nx(1) Suc.prems(2) have nb: "\<not> b < (cid + 1) div ?c" by simp
    have c1: "content ?m' = blob" using Suc.prems(1) by simp
    have c2: "(cid + 1) div ?c = b" using nx(1) Suc.prems(2) by simp
    have c3: "(cid + 1) mod ?c + n \<le> length arr" using nx(2) Suc.prems(3) by simp
    have c4: "(cid + 1) mod ?c + n \<le> ?c" using nx(2) Suc.prems(4) by simp
    have c5: "pos ?m' \<le> arr ! ((cid + 1) mod ?c)" if "0 < n"
    proof -
      from that Suc.prems(3) have k1: "?k + 1 < length arr" by simp
      then have "?k \<noteq> length arr - 1" by simp
      then have "spec_chunk_length arr (length blob) ?k = arr ! (?k + 1) - arr ! ?k"
        by (simp add: spec_chunk_length_def)
      moreover from k1 wf(1) have "arr ! ?k \<le> arr ! (?k + 1)"
        by (simp add: sorted_iff_nth_mono)
      ultimately show ?thesis unfolding nx(2) by simp
    qed
    have c7: "\<forall>i<n. decompress_chunk cd (compression s)
                  (spec_chunk_bytes arr blob ((cid + 1) mod ?c + i)) = Inr (Some (ds' ! i))"
    proof (intro allI impI)
      fix i assume "i < n"
      then have "Suc i < Suc n" by simp
      with Suc.prems(7) have "decompress_chunk cd (compression s)
                  (spec_chunk_bytes arr blob (?k + Suc i)) = Inr (Some (ds ! Suc i))"
        by blast
      then show "decompress_chunk cd (compression s)
                  (spec_chunk_bytes arr blob ((cid + 1) mod ?c + i)) = Inr (Some (ds' ! i))"
        unfolding nx(2) ds by simp
    qed
    from Suc.IH [OF c1 c2 c3 c4 c5 lds c7, of "cr + 1" "res @ d"]
    show ?thesis
      unfolding step ds using nb by simp
  qed
qed


lemma length_spec_chunk_bytes:
  assumes "sorted idx" "\<forall>x\<in>set idx. x \<le> length blob" "k < length idx"
  shows "length (spec_chunk_bytes idx blob k) = spec_chunk_length idx (length blob) k"
proof (cases "k = length idx - 1")
  case True
  then show ?thesis by (simp add: spec_chunk_bytes_def spec_chunk_length_def)
next
  case False
  with assms(3) have k1: "k + 1 < length idx" by simp
  with assms(2) have "idx ! (k + 1) \<le> length blob" by simp
  then show ?thesis
    using False by (simp add: spec_chunk_bytes_def spec_chunk_length_def)
qed

subsection \<open>The chunks a write and a flush hand to the bevy\<close>








section \<open>The claims\<close>

text \<open>
  Claim C3. With \<open>chunk_size = 4\<close>, \<open>chunks_per_segment = 2\<close> and compression
  \<open>STORED\<close>, writing the ten bytes \<open>ABCDEFGHIJ\<close> to the new stream persists bevy 0
  with the data \<open>ABCDEFGH\<close> (the chunks \<open>ABCD\<close> and \<open>EFGH\<close>) and an index that
  decodes to \<open>[0, 4]\<close>, and leaves \<open>IJ\<close> in the buffer with no segment of bevy 1
  written. \<^verbatim>\<open>Flush\<close> then persists bevy 1 with the data \<open>IJ\<close> and an index that
  decodes to \<open>[0]\<close>; the size is 10; reading 10 bytes at offset 0 returns
  \<open>ABCDEFGHIJ\<close> and reading 3 bytes at offset 4 returns \<open>EFG\<close>.
\<close>

theorem example_ABCDEFGHIJ:
  "LoadFromURN example_resolver Map.empty = Inr example_fresh
   \<and> Write cd ''ABCDEFGHIJ'' example_fresh = Some (Inr (example_written, 10))
   \<and> segments example_written (DataSeg 0) = Some ''ABCDEFGH''
   \<and> (\<exists>ib. segments example_written (IndexSeg 0) = Some ib
             \<and> unpack_I (length ib div 4) ib = Inr [0, 4])
   \<and> buffer example_written = ''IJ''
   \<and> segments example_written (DataSeg 1) = None
   \<and> segments example_written (IndexSeg 1) = None
   \<and> Flush cd example_written = Inr example_flushed
   \<and> segments example_flushed (DataSeg 0) = Some ''ABCDEFGH''
   \<and> segments example_flushed (DataSeg 1) = Some ''IJ''
   \<and> (\<exists>ib. segments example_flushed (IndexSeg 1) = Some ib
             \<and> unpack_I (length ib div 4) ib = Inr [0])
   \<and> stream_size example_flushed = 10
   \<and> Read cd 10 (Seek 0 example_flushed) = Inr ''ABCDEFGHIJ''
   \<and> Read cd 3 (Seek 4 example_flushed) = Inr ''EFG''"
proof -
  have w: "segments example_written (DataSeg 0) = Some ''ABCDEFGH''"
    "buffer example_written = ''IJ''"
    "segments example_written (DataSeg 1) = None"
    "segments example_written (IndexSeg 1) = None"
    by (simp_all add: example_written_def)
  have wi: "\<exists>ib. segments example_written (IndexSeg 0) = Some ib
             \<and> unpack_I (length ib div 4) ib = Inr [0, 4]"
    by (simp add: example_written_def unpack_I_def length_le32 word_of_le32 word_of_le32_only)
  have f: "segments example_flushed (DataSeg 0) = Some ''ABCDEFGH''"
    "segments example_flushed (DataSeg 1) = Some ''IJ''"
    "stream_size example_flushed = 10"
    by (simp_all add: example_flushed_def)
  have fi: "\<exists>ib. segments example_flushed (IndexSeg 1) = Some ib
             \<and> unpack_I (length ib div 4) ib = Inr [0]"
    by (simp add: example_flushed_def unpack_I_def length_le32 word_of_le32_only)
  have r1: "Read cd 10 (Seek 0 example_flushed) = Inr ''ABCDEFGHIJ''"
    by (simp add: example_flushed_def read_eval)
  have r2: "Read cd 3 (Seek 4 example_flushed) = Inr ''EFG''"
    by (simp add: example_flushed_def read_eval)
  show ?thesis
    using example_load example_write example_flush w wi f fi r1 r2 by blast
qed

text \<open>
  Claim C1, the round trip, fails on the code. New stream with \<open>chunk_size = 4\<close>,
  \<open>chunks_per_segment = 2\<close>, \<open>STORED\<close>; \<open>B = ABCD\<close>. \<^verbatim>\<open>Write\<close> keeps the four bytes
  pending, \<^verbatim>\<open>Flush\<close> persists them as the only chunk of bevy 0, and \<^verbatim>\<open>Read(4)\<close> at
  offset 0 asks for \<open>4 div 4 + 1 = 2\<close> chunks; the second one is not in the index and
  the read raises the error of line 215 instead of returning \<open>ABCD\<close>.
\<close>

theorem roundtrip_ABCD_raises:
  "LoadFromURN example_resolver Map.empty = Inr example_fresh
   \<and> Write cd ''ABCD'' example_fresh = Some (Inr (abcd_written, 4))
   \<and> Flush cd abcd_written = Inr abcd_flushed
   \<and> Read cd (int (length ''ABCD'')) (Seek 0 abcd_flushed) = Inl IndexTooShort"
proof -
  have "Read cd (int (length ''ABCD'')) (Seek 0 abcd_flushed) = Inl IndexTooShort"
    by (simp add: abcd_flushed_def read_eval)
  then show ?thesis
    using example_load abcd_write abcd_flush by blast
qed

text \<open>
  Claim C2, random access, fails on the code. On the flushed ten-byte stream
  \<open>ABCDEFGHIJ\<close> the window at offset 3 of length 2 lies within the size and covers the
  last byte of chunk 0 and the first of chunk 1. \<^verbatim>\<open>Read\<close> visits
  \<open>2 div 4 + 1 = 1\<close> chunk and returns \<open>D\<close>, not \<open>DE\<close>.
\<close>

theorem window_3_2_short:
  "Write cd ''ABCDEFGHIJ'' example_fresh = Some (Inr (example_written, 10))
   \<and> Flush cd example_written = Inr example_flushed
   \<and> stream_size example_flushed = 10
   \<and> Read cd 2 (Seek 3 example_flushed) = Inr ''D''"
proof -
  have "Read cd 2 (Seek 3 example_flushed) = Inr ''D''"
    by (simp add: example_flushed_def read_eval)
  moreover have "stream_size example_flushed = 10"
    by (simp add: example_flushed_def)
  ultimately show ?thesis
    using example_write example_flush by blast
qed

text \<open>
  Claim C9, reading at the end of the stream, fails on the code. After \<open>ABCD\<close> is
  written and flushed the cursor equals the size, 4. \<^verbatim>\<open>Read(1)\<close> clamps the length
  to 0 and still asks for \<open>0 div 4 + 1 = 1\<close> chunk, chunk 1, which the index of bevy 0
  does not hold: the read raises the error of line 215.
\<close>

theorem read_at_end_raises:
  "Write cd ''ABCD'' example_fresh = Some (Inr (abcd_written, 4))
   \<and> Flush cd abcd_written = Inr abcd_flushed
   \<and> readptr abcd_flushed = stream_size abcd_flushed
   \<and> Read cd 1 abcd_flushed = Inl IndexTooShort"
proof -
  have "Read cd 1 abcd_flushed = Inl IndexTooShort"
    by (simp add: abcd_flushed_def read_eval)
  moreover have "readptr abcd_flushed = stream_size abcd_flushed"
    by (simp add: abcd_flushed_def)
  ultimately show ?thesis
    using abcd_write abcd_flush by blast
qed

text \<open>
  Claim C4 as stated fails: the loop of \<^verbatim>\<open>Write\<close> runs while the buffer is strictly
  longer than \<open>chunk_size\<close>, so writing exactly \<open>chunk_size\<close> bytes to an empty buffer
  leaves all of them pending.
\<close>

theorem pending_buffer_full_counterexample:
  "Write null_codecs ''ABCD'' example_fresh = Some (Inr (abcd_written, 4))
   \<and> buffer example_fresh = []
   \<and> length ''ABCD'' = chunk_size example_fresh
   \<and> \<not> length (buffer abcd_written) < chunk_size abcd_written"
  using abcd_write [of null_codecs]
  by (simp add: abcd_written_def example_fresh_def)

text \<open>
  Claim C4 as amended. With a positive \<open>chunk_size\<close>, every \<^verbatim>\<open>Write\<close> returns (or
  raises), and when it returns the pending buffer holds at most \<open>chunk_size\<close> bytes.
  Writing exactly \<open>chunk_size\<close> bytes to an empty buffer flushes no chunk: the bytes
  written are the pending buffer, of length \<open>chunk_size\<close>, and the bevy, its index and
  the segments are as before.
\<close>

theorem Write_pending_at_most_chunk_size:
  assumes "0 < chunk_size s"
  shows "(\<exists>r. Write cd data s = Some r \<and>
            (\<forall>s' n. r = Inr (s', n) \<longrightarrow> length (buffer s') \<le> chunk_size s'))
         \<and> (buffer s = [] \<and> length data = chunk_size s \<longrightarrow>
              (\<exists>s'. Write cd data s = Some (Inr (s', length data)) \<and> buffer s' = data
                    \<and> length (buffer s') = chunk_size s'
                    \<and> bevy s' = bevy s \<and> bevy_index s' = bevy_index s
                    \<and> segments s' = segments s))"
proof
  let ?s0 = "s\<lparr>dirty := True, buffer := buffer s @ data\<rparr>"
  from assms have "0 < chunk_size ?s0" by simp
  from Write_loop_returns [OF this, of cd]
  obtain r where r: "Write_loop cd ?s0 = Some r"
    "\<forall>s'. r = Inr s' \<longrightarrow> length (buffer s') \<le> chunk_size s'"
    by auto
  show "\<exists>r. Write cd data s = Some r \<and>
            (\<forall>s' n. r = Inr (s', n) \<longrightarrow> length (buffer s') \<le> chunk_size s')"
  proof (cases r)
    case (Inl e)
    with r show ?thesis by (simp add: Write_def)
  next
    case (Inr s1)
    with r show ?thesis by (auto simp: Write_def Let_def)
  qed
next
  show "buffer s = [] \<and> length data = chunk_size s \<longrightarrow>
              (\<exists>s'. Write cd data s = Some (Inr (s', length data)) \<and> buffer s' = data
                    \<and> length (buffer s') = chunk_size s'
                    \<and> bevy s' = bevy s \<and> bevy_index s' = bevy_index s
                    \<and> segments s' = segments s)"
    by (auto simp: Write_def Write_loop_done Let_def)
qed

theorem Write_pending_at_most_chunk_size_witness:
  "0 < chunk_size example_fresh
   \<and> Write null_codecs ''ABCD'' example_fresh = Some (Inr (abcd_written, 4))
   \<and> length (buffer abcd_written) \<le> chunk_size abcd_written
   \<and> buffer example_fresh = [] \<and> length ''ABCD'' = chunk_size example_fresh
   \<and> buffer abcd_written = ''ABCD''"
proof -
  have h: "0 < chunk_size example_fresh" by (simp add: example_fresh_def)
  from Write_pending_at_most_chunk_size [OF h, of null_codecs "''ABCD''"]
  have "length (buffer abcd_written) \<le> chunk_size abcd_written"
    by (simp add: abcd_write)
  then show ?thesis
    using abcd_write [of null_codecs] by (simp add: example_fresh_def abcd_written_def)
qed




text \<open>
  Claim C5. With a positive \<open>chunks_per_segment\<close> (so that the position of the chunk in
  its bevy is defined), \<^verbatim>\<open>_ReadChunkFromBevy\<close> raises one of the two index errors if
  and only if the index is empty or the position of the chunk in its bevy is at least
  the index size; and in that case it returns no data.
\<close>

theorem ReadChunkFromBevy_index_corruption:
  assumes "0 < chunks_per_segment s"
  shows "((ReadChunkFromBevy cd s chunk_id m arr isz = Inl IndexEmpty
           \<or> ReadChunkFromBevy cd s chunk_id m arr isz = Inl IndexTooShort)
          \<longleftrightarrow> (isz = 0 \<or> isz \<le> chunk_id mod chunks_per_segment s))
         \<and> (isz = 0 \<or> isz \<le> chunk_id mod chunks_per_segment s
              \<longrightarrow> (\<forall>d m'. ReadChunkFromBevy cd s chunk_id m arr isz \<noteq> Inr (d, m')))"
proof (cases "isz = 0 \<or> isz \<le> chunk_id mod chunks_per_segment s")
  case True
  with assms show ?thesis
    by (auto simp: ReadChunkFromBevy_def Let_def)
next
  case False
  with assms have "ReadChunkFromBevy cd s chunk_id m arr isz \<noteq> Inl IndexEmpty"
    "ReadChunkFromBevy cd s chunk_id m arr isz \<noteq> Inl IndexTooShort"
    using decompress_chunk_not_index_error [of cd "compression s"]
    by (auto simp: ReadChunkFromBevy_def Let_def split: sum.splits prod.splits)
  with False show ?thesis by simp
qed

theorem ReadChunkFromBevy_index_corruption_witness:
  "0 < chunks_per_segment abcd_flushed
   \<and> (1::nat) \<le> 1 mod chunks_per_segment abcd_flushed
   \<and> (ReadChunkFromBevy null_codecs abcd_flushed 1 \<lparr>content = ''ABCD'', pos = 4\<rparr> [0] 1
          = Inl IndexEmpty
        \<or> ReadChunkFromBevy null_codecs abcd_flushed 1 \<lparr>content = ''ABCD'', pos = 4\<rparr> [0] 1
          = Inl IndexTooShort)"
proof -
  have h: "0 < chunks_per_segment abcd_flushed" by (simp add: abcd_flushed_def)
  have c: "(1::nat) \<le> 1 mod chunks_per_segment abcd_flushed" by (simp add: abcd_flushed_def)
  from ReadChunkFromBevy_index_corruption
         [OF h, of null_codecs 1 "\<lparr>content = ''ABCD'', pos = 4\<rparr>" "[0]" 1] c h
  show ?thesis by blast
qed



text \<open>
  Claim C6 as stated fails in its last part. \<^verbatim>\<open>LoadFromURN\<close> takes any string as the
  compression tag. With a tag that is none of the three, \<^verbatim>\<open>FlushChunk\<close> appends the index
  entry on line 91 and raises on line 92, before line 93 counts the chunk: after
  \<^verbatim>\<open>Write("AB")\<close> the \<^verbatim>\<open>Flush\<close> raises and leaves an index of 4 bytes with a chunk
  count of 0.
\<close>

theorem index_ahead_of_count_counterexample:
  "LoadFromURN unsupported_resolver Map.empty = Inr unsupported_fresh
   \<and> Write null_codecs ''AB'' unsupported_fresh = Some (Inr (unsupported_written, 2))
   \<and> Flush null_codecs unsupported_written = Inl (UnboundLocalError, unsupported_raised)
   \<and> reachable null_codecs unsupported_raised
   \<and> length (bevy_index unsupported_raised) = 4
   \<and> chunk_count_in_bevy unsupported_raised = 0
   \<and> length (bevy_index unsupported_raised) \<noteq> 4 * chunk_count_in_bevy unsupported_raised"
proof -
  have l: "LoadFromURN unsupported_resolver Map.empty = Inr unsupported_fresh"
    by (simp add: LoadFromURN_def unsupported_resolver_def unsupported_fresh_def
          example_resolver_def example_fresh_def)
  have w: "Write null_codecs ''AB'' unsupported_fresh = Some (Inr (unsupported_written, 2))"
    by (simp add: unsupported_written_def unsupported_fresh_def unsupported_resolver_def
          example_resolver_def example_fresh_def write_eval)
  have f: "Flush null_codecs unsupported_written = Inl (UnboundLocalError, unsupported_raised)"
    by (simp add: unsupported_raised_def unsupported_written_def unsupported_fresh_def
          unsupported_resolver_def example_resolver_def example_fresh_def write_eval)
  have r: "reachable null_codecs unsupported_raised"
    by (rule raised_Flush [OF after_Write [OF after_LoadFromURN [OF l] w] f])
  have v: "length (bevy_index unsupported_raised) = 4"
    "chunk_count_in_bevy unsupported_raised = 0"
    by (simp_all add: unsupported_raised_def unsupported_written_def unsupported_fresh_def
          example_fresh_def length_le32)
  from l w f r v show ?thesis by simp
qed

text \<open>
  Claim C6 as amended. Start from an empty bevy (no data, no index entry, count 0) and
  flush \<open>N\<close> chunks into it, \<open>1 \<le> N \<le> chunks_per_segment\<close>. The index of the bevy is then
  the concatenation of \<open>N\<close> four-byte little-endian words, one per chunk in chunk order,
  each the start offset of its compressed chunk in the data of the bevy; it is \<open>4 * N\<close>
  bytes long, the decoder of the read path decodes it to these \<open>N\<close> offsets, the
  offsets are non-decreasing and the first is 0. The index is the in-memory index when
  the bevy is not yet full (or holds no data), and the persisted index segment, next to
  the data segment, when the \<open>N\<close>-th chunk has filled the bevy. Secondly, for a stream
  whose compression tag is one of \<open>ZLIB\<close>, \<open>SNAPPY\<close> and \<open>STORED\<close>, at every point
  between operations, whether the operations returned or raised, the in-memory index
  is \<open>4 * chunk_count_in_bevy\<close> bytes long.
\<close>

theorem bevy_index_integrity:
  "(bevy s = [] \<and> bevy_index s = [] \<and> chunk_count_in_bevy s = 0
     \<and> 1 \<le> length cs \<and> length cs \<le> chunks_per_segment s
     \<and> FlushChunks cd cs s = Inr s'
    \<longrightarrow> (\<exists>ccs offs ib.
           map (compress_chunk cd (compression s)) cs = map Some ccs
           \<and> offs = chunk_offsets 0 ccs \<and> ib = concat (map le32 offs)
           \<and> length ib = 4 * length cs \<and> unpack_I (length cs) ib = Inr offs
           \<and> length offs = length cs \<and> sorted offs \<and> offs ! 0 = 0
           \<and> (if length cs < chunks_per_segment s \<or> concat ccs = []
                then bevy_index s' = ib \<and> chunk_count_in_bevy s' = length cs
                else segments s' (IndexSeg (bevy_number s)) = Some ib
                     \<and> segments s' (DataSeg (bevy_number s)) = Some (concat ccs))))
   \<and> (reachable cd t
        \<and> (compression t = ZLIB \<or> compression t = SNAPPY \<or> compression t = STORED)
      \<longrightarrow> length (bevy_index t) = 4 * chunk_count_in_bevy t)"
proof (intro conjI impI)
  assume "bevy s = [] \<and> bevy_index s = [] \<and> chunk_count_in_bevy s = 0
     \<and> 1 \<le> length cs \<and> length cs \<le> chunks_per_segment s
     \<and> FlushChunks cd cs s = Inr s'"
  then have h: "bevy s = []" "bevy_index s = []" "chunk_count_in_bevy s = 0"
    "1 \<le> length cs" "length cs \<le> chunks_per_segment s" "FlushChunks cd cs s = Inr s'"
    by simp_all
  from bevy_index_after_chunks [OF h]
  show "\<exists>ccs offs ib.
           map (compress_chunk cd (compression s)) cs = map Some ccs
           \<and> offs = chunk_offsets 0 ccs \<and> ib = concat (map le32 offs)
           \<and> length ib = 4 * length cs \<and> unpack_I (length cs) ib = Inr offs
           \<and> length offs = length cs \<and> sorted offs \<and> offs ! 0 = 0
           \<and> (if length cs < chunks_per_segment s \<or> concat ccs = []
                then bevy_index s' = ib \<and> chunk_count_in_bevy s' = length cs
                else segments s' (IndexSeg (bevy_number s)) = Some ib
                     \<and> segments s' (DataSeg (bevy_number s)) = Some (concat ccs))" .
next
  assume "reachable cd t
        \<and> (compression t = ZLIB \<or> compression t = SNAPPY \<or> compression t = STORED)"
  then have "reachable cd t" and "compression t \<noteq> UNSUPPORTED" by auto
  then show "length (bevy_index t) = 4 * chunk_count_in_bevy t"
    by (rule reachable_index_length)
qed

theorem bevy_index_integrity_witness:
  "bevy example_fresh = [] \<and> bevy_index example_fresh = []
   \<and> chunk_count_in_bevy example_fresh = 0
   \<and> 1 \<le> length [''ABCD'', ''EFGH'']
   \<and> length [''ABCD'', ''EFGH''] \<le> chunks_per_segment example_fresh
   \<and> FlushChunks null_codecs [''ABCD'', ''EFGH''] example_fresh = Inr example_two_chunks
   \<and> (\<exists>ccs offs ib.
         map (compress_chunk null_codecs (compression example_fresh)) [''ABCD'', ''EFGH'']
           = map Some ccs
         \<and> offs = chunk_offsets 0 ccs \<and> ib = concat (map le32 offs)
         \<and> length ib = 4 * length [''ABCD'', ''EFGH'']
         \<and> unpack_I (length [''ABCD'', ''EFGH'']) ib = Inr offs
         \<and> length offs = length [''ABCD'', ''EFGH''] \<and> sorted offs \<and> offs ! 0 = 0
         \<and> (if length [''ABCD'', ''EFGH''] < chunks_per_segment example_fresh \<or> concat ccs = []
              then bevy_index example_two_chunks = ib
                   \<and> chunk_count_in_bevy example_two_chunks = length [''ABCD'', ''EFGH'']
              else segments example_two_chunks (IndexSeg (bevy_number example_fresh)) = Some ib
                   \<and> segments example_two_chunks (DataSeg (bevy_number example_fresh))
                       = Some (concat ccs)))
   \<and> reachable null_codecs example_written
   \<and> compression example_written = STORED
   \<and> length (bevy_index example_written) = 4 * chunk_count_in_bevy example_written"
proof -
  have h: "bevy example_fresh = [] \<and> bevy_index example_fresh = []
     \<and> chunk_count_in_bevy example_fresh = 0
     \<and> 1 \<le> length [''ABCD'', ''EFGH'']
     \<and> length [''ABCD'', ''EFGH''] \<le> chunks_per_segment example_fresh
     \<and> FlushChunks null_codecs [''ABCD'', ''EFGH''] example_fresh = Inr example_two_chunks"
    using example_two_chunks_eval [of null_codecs] by (simp add: example_fresh_def)
  have r: "reachable null_codecs example_written"
    by (rule after_Write [OF after_LoadFromURN [OF example_load] example_write])
  note t = bevy_index_integrity [of example_fresh "[''ABCD'', ''EFGH'']" null_codecs
             example_two_chunks example_written]
  have c: "compression example_written = STORED" by (simp add: example_written_def)
  from t h r c show ?thesis by blast
qed

text \<open>
  Claim C8. Take a bevy whose index segment decodes to non-decreasing offsets that lie
  within its data segment, and read \<open>n\<close> consecutive chunks of it through
  \<^verbatim>\<open>_ReadPartial\<close>. The compressed bytes the read hands to the codec for the chunk at
  index position \<open>k\<close> are exactly the range of the specification: they start at entry
  \<open>k\<close>; for the last entry they run to the end of the data segment, so their number is
  the size of the data segment minus the start offset; for an earlier entry their number
  is the next entry minus this one. (For the last entry the code asks the member stream
  for its size minus its position before the seek, which is never less than the rest of
  the segment, since that position is 0 after opening or the start of this chunk after
  the chunk before it; the member stream returns what is left.) The decompressed chunks
  are returned concatenated, with their count.
\<close>

theorem ReadPartial_chunk_ranges:
  assumes cps: "0 < chunks_per_segment s"
    and seg: "segments s (IndexSeg (chunk_id div chunks_per_segment s)) = Some ib"
             "segments s (DataSeg (chunk_id div chunks_per_segment s)) = Some blob"
    and dec: "unpack_I (length ib div 4) ib = Inr idx"
    and wf: "sorted idx" "\<forall>x\<in>set idx. x \<le> length blob"
    and rng: "0 < n" "chunk_id mod chunks_per_segment s + n \<le> length idx"
             "chunk_id mod chunks_per_segment s + n \<le> chunks_per_segment s"
    and ds: "length ds = n"
            "\<forall>i<n. decompress_chunk cd (compression s)
                     (spec_chunk_bytes idx blob (chunk_id mod chunks_per_segment s + i))
                   = Inr (Some (ds ! i))"
  shows "ReadPartial cd s chunk_id (int n) = Inr (n, concat ds)
         \<and> (\<forall>i<n. length (spec_chunk_bytes idx blob (chunk_id mod chunks_per_segment s + i))
                    = spec_chunk_length idx (length blob)
                        (chunk_id mod chunks_per_segment s + i))"
proof
  from dec have l4: "length ib = 4 * (length ib div 4)" and u: "idx = unpack_words ib"
    by (auto simp: unpack_I_def split: if_splits)
  from u have li: "length ib div 4 = length idx"
    by (simp add: length_unpack_words)
  have m0: "content \<lparr>content = blob, pos = 0\<rparr> = blob" by simp
  have p0: "0 < n \<Longrightarrow> pos \<lparr>content = blob, pos = 0\<rparr> \<le> idx ! (chunk_id mod chunks_per_segment s)"
    by simp
  note bl = bevy_loop_reads [OF cps wf m0 refl rng(2,3) p0 ds, of 0 "[]"]
  from rng(1) have n0: "0 < int n" by simp
  show "ReadPartial cd s chunk_id (int n) = Inr (n, concat ds)"
    unfolding ReadPartial_def
    by (subst ReadPartial_loop_more [OF n0 cps seg l4])
       (simp add: u [symmetric] li bl ReadPartial_loop_done)
next
  show "\<forall>i<n. length (spec_chunk_bytes idx blob (chunk_id mod chunks_per_segment s + i))
                    = spec_chunk_length idx (length blob)
                        (chunk_id mod chunks_per_segment s + i)"
  proof (intro allI impI)
    fix i assume "i < n"
    with rng(2) have "chunk_id mod chunks_per_segment s + i < length idx" by simp
    from length_spec_chunk_bytes [OF wf this]
    show "length (spec_chunk_bytes idx blob (chunk_id mod chunks_per_segment s + i))
                    = spec_chunk_length idx (length blob)
                        (chunk_id mod chunks_per_segment s + i)" .
  qed
qed


theorem ReadPartial_chunk_ranges_witness:
  "0 < chunks_per_segment example_flushed
   \<and> segments example_flushed (IndexSeg (1 div chunks_per_segment example_flushed))
       = Some (le32 0 @ le32 4)
   \<and> segments example_flushed (DataSeg (1 div chunks_per_segment example_flushed))
       = Some ''ABCDEFGH''
   \<and> unpack_I (length (le32 0 @ le32 4) div 4) (le32 0 @ le32 4) = Inr [0, 4]
   \<and> sorted [0, 4 :: nat] \<and> (4 :: nat) \<le> length ''ABCDEFGH''
   \<and> 1 mod chunks_per_segment example_flushed + 1 \<le> length [0, 4 :: nat]
   \<and> 1 mod chunks_per_segment example_flushed + 1 \<le> chunks_per_segment example_flushed
   \<and> decompress_chunk null_codecs (compression example_flushed)
         (spec_chunk_bytes [0, 4] ''ABCDEFGH'' (1 mod chunks_per_segment example_flushed + 0))
       = Inr (Some ([''EFGH''] ! 0))
   \<and> ReadPartial null_codecs example_flushed 1 (int 1) = Inr (1, concat [''EFGH''])
   \<and> length (spec_chunk_bytes [0, 4] ''ABCDEFGH'' 1)
       = spec_chunk_length [0, 4] (length ''ABCDEFGH'') 1
   \<and> spec_chunk_length [0, 4] (length ''ABCDEFGH'') 1 = length ''ABCDEFGH'' - 4"
proof -
  have h1: "0 < chunks_per_segment example_flushed" by (simp add: example_flushed_def)
  have h2: "segments example_flushed (IndexSeg (1 div chunks_per_segment example_flushed))
       = Some (le32 0 @ le32 4)"
    by (simp add: example_flushed_def)
  have h3: "segments example_flushed (DataSeg (1 div chunks_per_segment example_flushed))
       = Some ''ABCDEFGH''"
    by (simp add: example_flushed_def)
  have h4: "unpack_I (length (le32 0 @ le32 4) div 4) (le32 0 @ le32 4) = Inr [0, 4]"
    by (simp add: unpack_I_def length_le32 word_of_le32 word_of_le32_only)
  have h5: "sorted [0, 4 :: nat]" by simp
  have h6: "\<forall>x\<in>set [0, 4 :: nat]. x \<le> length ''ABCDEFGH''" by simp
  have h7: "0 < (1 :: nat)" by simp
  have h8: "1 mod chunks_per_segment example_flushed + 1 \<le> length [0, 4 :: nat]"
    by (simp add: example_flushed_def)
  have h9: "1 mod chunks_per_segment example_flushed + 1 \<le> chunks_per_segment example_flushed"
    by (simp add: example_flushed_def)
  have h10: "length [''EFGH''] = 1" by simp
  have h11: "\<forall>i<1. decompress_chunk null_codecs (compression example_flushed)
                (spec_chunk_bytes [0, 4] ''ABCDEFGH''
                   (1 mod chunks_per_segment example_flushed + i))
              = Inr (Some ([''EFGH''] ! i))"
    by (simp add: example_flushed_def decompress_chunk_def spec_chunk_bytes_def
          spec_chunk_length_def)
  have l: "spec_chunk_length [0, 4] (length ''ABCDEFGH'') 1 = length ''ABCDEFGH'' - 4"
    by (simp add: spec_chunk_length_def)
  have k: "1 mod chunks_per_segment example_flushed = 1" by (simp add: example_flushed_def)
  from ReadPartial_chunk_ranges [OF h1 h2 h3 h4 h5 h6 h7 h8 h9 h10 h11]
  have "ReadPartial null_codecs example_flushed 1 (int 1) = Inr (1, concat [''EFGH''])"
    and "length (spec_chunk_bytes [0, 4] ''ABCDEFGH'' 1)
           = spec_chunk_length [0, 4] (length ''ABCDEFGH'') 1"
    unfolding k by simp_all
  moreover have "(4 :: nat) \<le> length ''ABCDEFGH''" by simp
  moreover from h11 have "decompress_chunk null_codecs (compression example_flushed)
         (spec_chunk_bytes [0, 4] ''ABCDEFGH'' (1 mod chunks_per_segment example_flushed + 0))
       = Inr (Some ([''EFGH''] ! 0))"
    by blast
  ultimately show ?thesis
    using h1 h2 h3 h4 h5 h8 h9 l by blast
qed

end
